theory Spec2Isabelle
  imports Complex_Main
begin

section \<open>Data model\<close>

text \<open>
  The program is TypeScript running on the Web Audio platform. JavaScript numbers that hold
  times, sample rates and sample values are modelled as reals; the arguments of the functions
  are finite. Where the code computes with times (the sample indices of \<^verbatim>\<open>extractClip\<close>,
  the pixels and times of the waveform, the digits of \<^verbatim>\<open>formatTime\<close>) and where it
  divides, the rounding of binary64 arithmetic is part of the model; the scaling of a sample
  and the comparisons are exact on the numbers that occur. In \<^verbatim>\<open>extractClip\<close> a
  product can overflow, and the infinities and NaN are values of the model there. A
  \<^verbatim>\<open>Float32Array\<close> stores NaN when \<^verbatim>\<open>undefined\<close> is assigned to one of its
  elements; a sample is therefore either a finite number or NaN.
\<close>

datatype sample = Fin real | NaN

text \<open>
  Reading a typed array out of range (a negative index included) yields
  \<^verbatim>\<open>undefined\<close>, modelled as \<open>None\<close>; nothing is raised.
\<close>

definition typed_get :: "sample list \<Rightarrow> int \<Rightarrow> sample option" where
  "typed_get a i = (if 0 \<le> i \<and> i < int (length a) then Some (a ! nat i) else None)"

text \<open>Storing a JavaScript value into a \<^verbatim>\<open>Float32Array\<close>: \<^verbatim>\<open>undefined\<close> becomes NaN.\<close>

definition to_float32 :: "sample option \<Rightarrow> sample" where
  "to_float32 v = (case v of None \<Rightarrow> NaN | Some s \<Rightarrow> s)"

text \<open>
  The platform's \<^verbatim>\<open>AudioBuffer\<close>: \<^verbatim>\<open>sampleRate\<close>, \<^verbatim>\<open>length\<close>
  (the number of frames, here \<open>length_frames\<close>) and one sample array per channel, which
  \<^verbatim>\<open>getChannelData(i)\<close> returns. \<^verbatim>\<open>numberOfChannels\<close> is the number
  of these arrays.
\<close>

record AudioBuffer =
  sampleRate :: real
  length_frames :: nat
  channels :: "sample list list"

definition numberOfChannels :: "AudioBuffer \<Rightarrow> nat" where
  "numberOfChannels b = length (channels b)"

text \<open>
  The buffers the platform hands out: a positive sample rate, at least one frame, at least
  one channel, and every channel array as long as the buffer.
\<close>

definition wf_buffer :: "AudioBuffer \<Rightarrow> bool" where
  "wf_buffer b \<longleftrightarrow>
     0 < sampleRate b \<and> 0 < length_frames b \<and> channels b \<noteq> [] \<and>
     list_all (\<lambda>c. length c = length_frames b) (channels b)"

datatype error = InvalidTimeRange | NotSupportedError | RangeError | IndexSizeError

section \<open>Double arithmetic\<close>

text \<open>
  The result of an arithmetic operation on JavaScript numbers is the exact result rounded to
  the nearest binary64 number: the nearest number with a 53-bit significand, a tie going to
  the one whose significand is even. Exponents are not bounded in \<open>fl\<close> (no subnormal
  numbers; times in seconds and sample indices are far from them); overflow is added to it
  below.
\<close>

definition round_half_even :: "real \<Rightarrow> int" where
  "round_half_even x =
     (let f = \<lfloor>x\<rfloor>; r = x - of_int f
      in if r < 1 / 2 then f else if 1 / 2 < r then f + 1 else if even f then f else f + 1)"

text \<open>For \<open>x > 0\<close>, the exponent \<open>e\<close> with \<open>2 ^ e \<le> x < 2 ^ (e + 1)\<close>.\<close>

function binade :: "real \<Rightarrow> int" where
  "binade x =
     (if 0 < x \<and> x < 1 then binade (2 * x) - 1
      else if 2 \<le> x then binade (x / 2) + 1
      else 0)"
  by pat_completeness auto
termination
proof (relation "measure (\<lambda>x. if 0 < x \<and> x < 1 then nat \<lfloor>1 / x\<rfloor> + 1 else nat \<lfloor>x\<rfloor>)")
  show "wf (measure (\<lambda>x::real. if 0 < x \<and> x < 1 then nat \<lfloor>1 / x\<rfloor> + 1 else nat \<lfloor>x\<rfloor>))"
    by simp
next
  fix x :: real
  assume x: "0 < x \<and> x < 1"
  show "(2 * x, x) \<in> measure (\<lambda>x. if 0 < x \<and> x < 1 then nat \<lfloor>1 / x\<rfloor> + 1 else nat \<lfloor>x\<rfloor>)"
  proof (cases "2 * x < 1")
    case True
    have "2 \<le> 1 / x" using x True by (simp add: pos_le_divide_eq)
    then have "1 / (2 * x) + 1 \<le> 1 / x" by (simp add: field_simps)
    then have "\<lfloor>1 / (2 * x)\<rfloor> + 1 \<le> \<lfloor>1 / x\<rfloor>"
      by (metis add.commute floor_mono floor_add_int of_int_1 floor_one add.commute)
    moreover have "0 \<le> \<lfloor>1 / (2 * x)\<rfloor>" using x by simp
    ultimately have "nat \<lfloor>1 / (2 * x)\<rfloor> < nat \<lfloor>1 / x\<rfloor>" by linarith
    then show ?thesis using x True by simp
  next
    case False
    then have "1 \<le> 2 * x" "2 * x < 2" using x by simp_all
    then have "\<lfloor>2 * x\<rfloor> = 1" by linarith
    moreover have "1 \<le> 1 / x" using x by simp
    then have "1 \<le> \<lfloor>1 / x\<rfloor>" by simp
    ultimately show ?thesis using x False by simp
  qed
next
  fix x :: real
  assume x: "\<not> (0 < x \<and> x < 1)" "2 \<le> x"
  have "x / 2 + 1 \<le> x" using x(2) by simp
  then have "\<lfloor>x / 2\<rfloor> + 1 \<le> \<lfloor>x\<rfloor>"
    by (metis floor_mono floor_add_int of_int_1)
  moreover have "0 \<le> \<lfloor>x / 2\<rfloor>" using x(2) by simp
  ultimately have "nat \<lfloor>x / 2\<rfloor> < nat \<lfloor>x\<rfloor>" by linarith
  then show "(x / 2, x) \<in> measure (\<lambda>x. if 0 < x \<and> x < 1 then nat \<lfloor>1 / x\<rfloor> + 1 else nat \<lfloor>x\<rfloor>)"
    using x by simp
qed

declare binade.simps [simp del]

text \<open>The binary64 number nearest to \<open>x\<close>.\<close>

definition fl :: "real \<Rightarrow> real" where
  "fl x =
     (if x = 0 then 0
      else let q = 2 powi (binade \<bar>x\<bar> - 52) in of_int (round_half_even (x / q)) * q)"

lemmas fl_eval = fl_def binade.simps round_half_even_def Let_def

text \<open>
  The numbers of the language that are not finite, for the places where finite operands can
  produce them: a result too large for binary64 is an infinity, and the difference of two
  equal infinities is NaN.
\<close>

datatype number = Num real | PosInf | NegInf | NotANumber

definition to_number :: "real \<Rightarrow> number" where
  "to_number x =
     (let r = fl x
      in if 2 ^ 1024 \<le> r then PosInf else if r \<le> - (2 ^ 1024) then NegInf else Num r)"

definition js_times :: "real \<Rightarrow> real \<Rightarrow> number" where
  "js_times a b = to_number (a * b)"

fun js_add :: "number \<Rightarrow> number \<Rightarrow> number" where
  "js_add (Num x) (Num y) = to_number (x + y)"
| "js_add NotANumber _ = NotANumber"
| "js_add _ NotANumber = NotANumber"
| "js_add PosInf NegInf = NotANumber"
| "js_add NegInf PosInf = NotANumber"
| "js_add PosInf _ = PosInf"
| "js_add _ PosInf = PosInf"
| "js_add NegInf _ = NegInf"
| "js_add _ NegInf = NegInf"

fun js_neg :: "number \<Rightarrow> number" where
  "js_neg (Num x) = Num (- x)"
| "js_neg PosInf = NegInf"
| "js_neg NegInf = PosInf"
| "js_neg NotANumber = NotANumber"

definition js_minus :: "number \<Rightarrow> number \<Rightarrow> number" where
  "js_minus a b = js_add a (js_neg b)"

text \<open>The comparisons \<^verbatim>\<open><\<close> and \<^verbatim>\<open><=\<close>; with NaN on either side both are false.\<close>

fun js_less :: "number \<Rightarrow> number \<Rightarrow> bool" where
  "js_less (Num x) (Num y) = (x < y)"
| "js_less NotANumber _ = False"
| "js_less _ NotANumber = False"
| "js_less PosInf _ = False"
| "js_less _ PosInf = True"
| "js_less _ NegInf = False"
| "js_less NegInf _ = True"

fun js_le :: "number \<Rightarrow> number \<Rightarrow> bool" where
  "js_le (Num x) (Num y) = (x \<le> y)"
| "js_le NotANumber _ = False"
| "js_le _ NotANumber = False"
| "js_le _ PosInf = True"
| "js_le PosInf _ = False"
| "js_le NegInf _ = True"
| "js_le _ NegInf = False"

fun Math_floor :: "number \<Rightarrow> number" where
  "Math_floor (Num x) = Num (of_int \<lfloor>x\<rfloor>)"
| "Math_floor v = v"

text \<open>
  The conversions to an integer type: the fraction is dropped (rounding toward zero) and
  the integer is reduced modulo \<open>2^32\<close>. An argument of the type \<^verbatim>\<open>unsigned long\<close> of
  a platform method is converted in this way, and an infinity or NaN becomes 0.
\<close>

definition js_trunc :: "real \<Rightarrow> int" where
  "js_trunc x = (if x < 0 then \<lceil>x\<rceil> else \<lfloor>x\<rfloor>)"

definition ToUint32 :: "real \<Rightarrow> int" where
  "ToUint32 x = js_trunc x mod 2 ^ 32"

definition unsigned_long :: "number \<Rightarrow> int" where
  "unsigned_long v = (case v of Num x \<Rightarrow> ToUint32 x | _ \<Rightarrow> 0)"

text \<open>
  \<^verbatim>\<open>AudioBuffer.duration\<close> is the length divided by the sample rate, a binary64 number
  like every other.
\<close>

definition buffer_duration :: "AudioBuffer \<Rightarrow> real" where
  "buffer_duration b = fl (real (length_frames b) / sampleRate b)"

section \<open>extractClip: the copied segment\<close>

text \<open>
  \<^verbatim>\<open>AudioContext.createBuffer(numberOfChannels, length, sampleRate)\<close> returns a
  buffer of silence. Its \<^verbatim>\<open>length\<close> is an \<^verbatim>\<open>unsigned long\<close>: the argument is
  reduced modulo \<open>2^32\<close> before anything else. \<^verbatim>\<open>NotSupportedError\<close> is raised when an
  argument is then zero or negative. (An implementation may also refuse a buffer it has no
  memory for, and sample rates and channel counts outside the range it supports; the buffers
  here take both from a buffer the same implementation has made.)
\<close>

definition createBuffer :: "nat \<Rightarrow> number \<Rightarrow> real \<Rightarrow> error + AudioBuffer" where
  "createBuffer n len sr =
     (let l = nat (unsigned_long len)
      in if n = 0 \<or> l = 0 \<or> sr \<le> 0 then Inl NotSupportedError
         else Inr \<lparr>sampleRate = sr, length_frames = l,
                   channels = replicate n (replicate l (Fin 0))\<rparr>)"

text \<open>
  Reading and writing an element of a typed array at an index that is a number: an index
  that is not an integer within the array reads \<^verbatim>\<open>undefined\<close> and writes nothing.
\<close>

definition typed_get_num :: "sample list \<Rightarrow> number \<Rightarrow> sample option" where
  "typed_get_num a v =
     (case v of Num x \<Rightarrow> (if x = of_int \<lfloor>x\<rfloor> then typed_get a \<lfloor>x\<rfloor> else None) | _ \<Rightarrow> None)"

definition typed_set :: "sample list \<Rightarrow> real \<Rightarrow> sample \<Rightarrow> sample list" where
  "typed_set a j v =
     (if 0 \<le> j \<and> j = of_int \<lfloor>j\<rfloor> \<and> nat \<lfloor>j\<rfloor> < length a then a[nat \<lfloor>j\<rfloor> := v] else a)"

text \<open>
  The inner loop of \<^verbatim>\<open>extractClip\<close>:
  \<^verbatim>\<open>for (let j = 0; j < frameCount; j++)
    if (startSample + j < channelData.length) newChannelData[j] = channelData[startSample + j];\<close>
  The guard bounds the index from above only. The counter is a number as well: from
  \<open>2^53\<close> on \<^verbatim>\<open>j++\<close> leaves it as it is, and the loop does not end.
\<close>

partial_function (option) copy_segment ::
  "sample list \<Rightarrow> number \<Rightarrow> number \<Rightarrow> real \<Rightarrow> sample list \<Rightarrow> sample list option" where
  "copy_segment channelData startSample frameCount j newChannelData =
     (if js_less (Num j) frameCount then
        copy_segment channelData startSample frameCount (fl (j + 1))
          (if js_less (js_add startSample (Num j)) (Num (real (length channelData)))
           then typed_set newChannelData j
                  (to_float32 (typed_get_num channelData (js_add startSample (Num j))))
           else newChannelData)
      else Some newChannelData)"

text \<open>
  The outer loop, over the channels of the source:
  \<^verbatim>\<open>for (let i = 0; i < buffer.numberOfChannels; i++)\<close>.
\<close>

function copy_channels ::
  "AudioBuffer \<Rightarrow> number \<Rightarrow> number \<Rightarrow> nat \<Rightarrow> AudioBuffer \<Rightarrow> AudioBuffer option" where
  "copy_channels buffer startSample frameCount i newBuffer =
     (if i < numberOfChannels buffer then
        (case copy_segment (channels buffer ! i) startSample frameCount 0
                (channels newBuffer ! i) of
           None \<Rightarrow> None
         | Some newChannelData \<Rightarrow>
             copy_channels buffer startSample frameCount (i + 1)
               (newBuffer\<lparr>channels := (channels newBuffer)[i := newChannelData]\<rparr>))
      else Some newBuffer)"
  by pat_completeness auto
termination
  by (relation "measure (\<lambda>(b, s, n, i, d). numberOfChannels b - i)") auto

text \<open>
  Lines 17 to 42 of \<^verbatim>\<open>extractClip\<close>: the two indices
  \<^verbatim>\<open>Math.floor(startTime * sampleRate)\<close> and \<^verbatim>\<open>Math.floor(endTime * sampleRate)\<close>,
  the frame count, the guard that throws \<^verbatim>\<open>Error("Invalid time range")\<close>, the new
  buffer and the copy. \<open>None\<close>: the call does not return.
\<close>

definition extract_buffer :: "AudioBuffer \<Rightarrow> real \<Rightarrow> real \<Rightarrow> (error + AudioBuffer) option" where
  "extract_buffer buffer startTime endTime =
     (let startSample = Math_floor (js_times startTime (sampleRate buffer));
          endSample = Math_floor (js_times endTime (sampleRate buffer));
          frameCount = js_minus endSample startSample
      in if js_le frameCount (Num 0) then Some (Inl InvalidTimeRange)
         else case createBuffer (numberOfChannels buffer) frameCount (sampleRate buffer) of
                Inl e \<Rightarrow> Some (Inl e)
              | Inr newBuffer \<Rightarrow>
                  map_option Inr (copy_channels buffer startSample frameCount 0 newBuffer))"

section \<open>bufferToWav: the encoder\<close>

text \<open>
  The conversions a \<^verbatim>\<open>DataView\<close> setter and the operator \<^verbatim>\<open>| 0\<close>
  apply to a number: the fraction is dropped (rounding toward zero) and the integer is
  reduced modulo \<open>2^32\<close> (\<open>ToUint32\<close> above) or \<open>2^16\<close>.
\<close>

definition ToUint16 :: "real \<Rightarrow> int" where
  "ToUint16 x = js_trunc x mod 2 ^ 16"

definition ToInt32 :: "real \<Rightarrow> int" where
  "ToInt32 x = (let u = js_trunc x mod 2 ^ 32 in if 2 ^ 31 \<le> u then u - 2 ^ 32 else u)"

text \<open>The bytes a little-endian setter stores, lowest byte first.\<close>

definition bytes_u32 :: "int \<Rightarrow> nat list" where
  "bytes_u32 v = [nat (v mod 256), nat (v div 256 mod 256),
                  nat (v div 65536 mod 256), nat (v div 16777216 mod 256)]"

definition bytes_u16 :: "int \<Rightarrow> nat list" where
  "bytes_u16 v = [nat (v mod 256), nat (v div 256 mod 256)]"

text \<open>
  A \<^verbatim>\<open>DataView\<close> setter writes its bytes at \<open>byteOffset\<close> and raises
  \<^verbatim>\<open>RangeError\<close> when they would not fit in the buffer.
\<close>

definition dv_set :: "nat \<Rightarrow> nat list \<Rightarrow> nat list \<Rightarrow> error + nat list" where
  "dv_set byteOffset bs buf =
     (if byteOffset + length bs \<le> length buf
      then Inr (take byteOffset buf @ bs @ drop (byteOffset + length bs) buf)
      else Inl RangeError)"

text \<open>
  The mutable locals of \<^verbatim>\<open>bufferToWav\<close>: the \<^verbatim>\<open>ArrayBuffer\<close> behind
  \<^verbatim>\<open>view\<close>, and the two cursors \<^verbatim>\<open>pos\<close> and \<^verbatim>\<open>offset\<close>.
  The helpers \<^verbatim>\<open>setUint16\<close> and \<^verbatim>\<open>setUint32\<close> write at \<^verbatim>\<open>pos\<close>
  and advance it.
\<close>

record writer =
  bytes :: "nat list"
  pos :: nat
  offset :: nat

definition setUint16 :: "real \<Rightarrow> writer \<Rightarrow> error + writer" where
  "setUint16 data w =
     (case dv_set (pos w) (bytes_u16 (ToUint16 data)) (bytes w) of
        Inl e \<Rightarrow> Inl e
      | Inr b \<Rightarrow> Inr (w\<lparr>bytes := b, pos := pos w + 2\<rparr>))"

definition setUint32 :: "real \<Rightarrow> writer \<Rightarrow> error + writer" where
  "setUint32 data w =
     (case dv_set (pos w) (bytes_u32 (ToUint32 data)) (bytes w) of
        Inl e \<Rightarrow> Inl e
      | Inr b \<Rightarrow> Inr (w\<lparr>bytes := b, pos := pos w + 4\<rparr>))"

text \<open>Statements run one after the other; the first exception ends the run.\<close>

fun seq :: "(writer \<Rightarrow> error + writer) list \<Rightarrow> writer \<Rightarrow> error + writer" where
  "seq [] w = Inr w"
| "seq (f # fs) w = (case f w of Inl e \<Rightarrow> Inl e | Inr w' \<Rightarrow> seq fs w')"

text \<open>
  Lines 62 to 76, the header. \<open>len\<close> is the local \<^verbatim>\<open>length\<close>, the size of the
  whole file; the last field reads the cursor: \<^verbatim>\<open>setUint32(length - pos - 4)\<close>.
\<close>

definition write_header :: "AudioBuffer \<Rightarrow> nat \<Rightarrow> writer \<Rightarrow> error + writer" where
  "write_header abuffer len =
     seq [setUint32 0x46464952,
          setUint32 (real len - 8),
          setUint32 0x45564157,
          setUint32 0x20746d66,
          setUint32 16,
          setUint16 1,
          setUint16 (real (numberOfChannels abuffer)),
          setUint32 (sampleRate abuffer),
          setUint32 (sampleRate abuffer * 2 * real (numberOfChannels abuffer)),
          setUint16 (real (numberOfChannels abuffer) * 2),
          setUint16 16,
          setUint32 0x61746164,
          (\<lambda>w. setUint32 (real len - real (pos w) - 4) w)]"

text \<open>
  Line 84, \<^verbatim>\<open>Math.max(-1, Math.min(1, channels[i][pos]))\<close>: a number is clamped,
  \<^verbatim>\<open>undefined\<close> and NaN give NaN.
\<close>

definition clamp_sample :: "sample option \<Rightarrow> sample" where
  "clamp_sample v =
     (case v of Some (Fin x) \<Rightarrow> Fin (max (- 1) (min 1 x)) | Some NaN \<Rightarrow> NaN | None \<Rightarrow> NaN)"

text \<open>
  Line 86, \<^verbatim>\<open>(0.5 + sample < 0 ? sample * 32768 : sample * 32767) | 0\<close>. The
  comparison binds weaker than the sum, so the test is \<open>0.5 + sample < 0\<close>; with NaN it is
  false, the product is NaN and \<^verbatim>\<open>NaN | 0\<close> is 0.
\<close>

definition scale_sample :: "sample \<Rightarrow> int" where
  "scale_sample s =
     (case s of
        NaN \<Rightarrow> 0
      | Fin x \<Rightarrow> ToInt32 (if 0.5 + x < 0 then x * 32768 else x * 32767))"

text \<open>
  The body of the inner loop, once per channel array in \<^verbatim>\<open>channels\<close>: the sample
  at index \<^verbatim>\<open>pos\<close> is converted and stored with
  \<^verbatim>\<open>view.setInt16(44 + offset, sample, true)\<close>, then \<^verbatim>\<open>offset += 2\<close>.
\<close>

fun write_frame :: "sample list list \<Rightarrow> writer \<Rightarrow> error + writer" where
  "write_frame [] w = Inr w"
| "write_frame (ch # chs) w =
     (case dv_set (44 + offset w)
             (bytes_u16 (ToUint16 (real_of_int (scale_sample (clamp_sample (typed_get ch (int (pos w))))))))
             (bytes w) of
        Inl e \<Rightarrow> Inl e
      | Inr b \<Rightarrow> write_frame chs (w\<lparr>bytes := b, offset := offset w + 2\<rparr>))"

lemma pos_write_frame: "write_frame chs w = Inr w' \<Longrightarrow> pos w' = pos w"
  by (induction chs arbitrary: w) (auto split: sum.splits)

text \<open>
  Lines 81 to 91: \<^verbatim>\<open>while (pos < abuffer.length) { ...; pos++ }\<close>. The loop reads
  the cursor \<^verbatim>\<open>pos\<close> as the header left it.
\<close>

function write_frames :: "nat \<Rightarrow> sample list list \<Rightarrow> writer \<Rightarrow> error + writer" where
  "write_frames len chs w =
     (if pos w < len then
        (case write_frame chs w of
           Inl e \<Rightarrow> Inl e
         | Inr w' \<Rightarrow> write_frames len chs (w'\<lparr>pos := pos w' + 1\<rparr>))
      else Inr w)"
  by pat_completeness auto
termination
  by (relation "measure (\<lambda>(len, chs, w). len - pos w)") (auto dest: pos_write_frame)

declare write_frames.simps [simp del]

definition bufferToWav :: "AudioBuffer \<Rightarrow> error + nat list" where
  "bufferToWav abuffer =
     (let numOfChan = numberOfChannels abuffer;
          len = length_frames abuffer * numOfChan * 2 + 44;
          w0 = \<lparr>bytes = replicate len 0, pos = 0, offset = 0\<rparr>
      in case write_header abuffer len w0 of
           Inl e \<Rightarrow> Inl e
         | Inr w1 \<Rightarrow>
             (case write_frames (length_frames abuffer) (channels abuffer) w1 of
                Inl e \<Rightarrow> Inl e
              | Inr w2 \<Rightarrow> Inr (bytes w2)))"

text \<open>\<^verbatim>\<open>extractClip\<close> as a whole: the copied segment, encoded.\<close>

definition extractClip :: "AudioBuffer \<Rightarrow> real \<Rightarrow> real \<Rightarrow> (error + nat list) option" where
  "extractClip buffer startTime endTime =
     (case extract_buffer buffer startTime endTime of
        None \<Rightarrow> None
      | Some (Inl e) \<Rightarrow> Some (Inl e)
      | Some (Inr newBuffer) \<Rightarrow> Some (bufferToWav newBuffer))"

section \<open>The file layout the encoder is compared with\<close>

text \<open>
  The canonical 44-byte header of an uncompressed RIFF/WAVE file, written from the format's
  layout and not from the code: four-character tags as ASCII, every number little-endian.
  \<open>len\<close> is the size of the whole file.
\<close>

definition wav_header :: "AudioBuffer \<Rightarrow> nat \<Rightarrow> nat list" where
  "wav_header b len =
     map of_char ''RIFF'' @ bytes_u32 (int len - 8) @ map of_char ''WAVE'' @
     map of_char ''fmt '' @ bytes_u32 16 @ bytes_u16 1 @
     bytes_u16 (int (numberOfChannels b)) @
     bytes_u32 (ToUint32 (sampleRate b)) @
     bytes_u32 (ToUint32 (sampleRate b * 2 * real (numberOfChannels b))) @
     bytes_u16 (int (numberOfChannels b) * 2) @ bytes_u16 16 @
     map of_char ''data'' @ bytes_u32 (int len - 44)"

lemma length_bytes [simp]: "length (bytes_u32 v) = 4" "length (bytes_u16 v) = 2"
  by (simp_all add: bytes_u32_def bytes_u16_def)

lemma length_wav_header [simp]: "length (wav_header b len) = 44"
  by (simp add: wav_header_def)

lemma js_trunc_of_int [simp]: "js_trunc (real_of_int i) = i"
  by (simp add: js_trunc_def)

lemma js_trunc_of_nat [simp]: "js_trunc (real n) = int n"
  using js_trunc_of_int [of "int n"] by simp

lemma mod_mult_div:
  "0 < b \<Longrightarrow> 0 \<le> c \<Longrightarrow> (a mod (b * c)) div b = (a div b) mod (c::int)"
  by (simp add: zmod_zmult2_eq)

lemma byte_of_mod:
  "0 < b \<Longrightarrow> 0 < c \<Longrightarrow> 256 dvd c \<Longrightarrow> (v mod (b * c)) div b mod 256 = v div b mod (256::int)"
  by (simp add: mod_mult_div mod_mod_cancel)

lemma bytes_u32_mod [simp]: "bytes_u32 (v mod 4294967296) = bytes_u32 v"
proof -
  have a0: "v mod 4294967296 mod 256 = v mod 256"
    by (rule mod_mod_cancel) simp
  have a1: "v mod 4294967296 div 256 mod 256 = v div 256 mod 256"
    using byte_of_mod [of 256 16777216 v] by simp
  have a2: "v mod 4294967296 div 65536 mod 256 = v div 65536 mod 256"
    using byte_of_mod [of 65536 65536 v] by simp
  have a3: "v mod 4294967296 div 16777216 mod 256 = v div 16777216 mod 256"
    using byte_of_mod [of 16777216 256 v] by simp
  show ?thesis unfolding bytes_u32_def a0 a1 a2 a3 ..
qed

lemma bytes_u16_mod [simp]: "bytes_u16 (v mod 65536) = bytes_u16 v"
proof -
  have a0: "v mod 65536 mod 256 = v mod 256"
    by (rule mod_mod_cancel) simp
  have a1: "v mod 65536 div 256 mod 256 = v div 256 mod 256"
    using byte_of_mod [of 256 256 v] by simp
  show ?thesis unfolding bytes_u16_def a0 a1 ..
qed

lemma ToUint32_of_int [simp]: "bytes_u32 (ToUint32 (real_of_int i)) = bytes_u32 i"
  by (simp add: ToUint32_def)

lemma ToUint16_of_int [simp]: "bytes_u16 (ToUint16 (real_of_int i)) = bytes_u16 i"
  by (simp add: ToUint16_def)

lemma setUint32_Inr:
  "pos w + 4 \<le> length (bytes w) \<Longrightarrow>
   setUint32 d w = Inr (w\<lparr>bytes := take (pos w) (bytes w) @ bytes_u32 (ToUint32 d) @ drop (pos w + 4) (bytes w),
                         pos := pos w + 4\<rparr>)"
  by (simp add: setUint32_def dv_set_def)

lemma setUint16_Inr:
  "pos w + 2 \<le> length (bytes w) \<Longrightarrow>
   setUint16 d w = Inr (w\<lparr>bytes := take (pos w) (bytes w) @ bytes_u16 (ToUint16 d) @ drop (pos w + 2) (bytes w),
                         pos := pos w + 2\<rparr>)"
  by (simp add: setUint16_def dv_set_def)

lemma write_header_Inr:
  assumes "44 \<le> len"
  shows "write_header b len \<lparr>bytes = replicate len 0, pos = 0, offset = 0\<rparr> =
         Inr \<lparr>bytes = wav_header b len @ replicate (len - 44) 0, pos = 44, offset = 0\<rparr>"
proof -
  have tags: "bytes_u32 (ToUint32 1179011410) = map of_char ''RIFF''"
    "bytes_u32 (ToUint32 1163280727) = map of_char ''WAVE''"
    "bytes_u32 (ToUint32 544501094) = map of_char ''fmt ''"
    "bytes_u32 (ToUint32 1635017060) = map of_char ''data''"
    "bytes_u32 (ToUint32 16) = bytes_u32 16"
    "bytes_u16 (ToUint16 1) = bytes_u16 1"
    "bytes_u16 (ToUint16 16) = bytes_u16 16"
    by (simp_all add: ToUint32_def ToUint16_def js_trunc_def bytes_u32_def bytes_u16_def)
  have sizes: "bytes_u32 (ToUint32 (real len - 8)) = bytes_u32 (int len - 8)"
    "bytes_u32 (ToUint32 (real len - 44)) = bytes_u32 (int len - 44)"
    using ToUint32_of_int [of "int len - 8"] ToUint32_of_int [of "int len - 44"] by simp_all
  have chans: "bytes_u16 (ToUint16 (real (numberOfChannels b))) = bytes_u16 (int (numberOfChannels b))"
    "bytes_u16 (ToUint16 (real (numberOfChannels b) * 2)) = bytes_u16 (int (numberOfChannels b) * 2)"
    using ToUint16_of_int [of "int (numberOfChannels b)"] ToUint16_of_int [of "int (numberOfChannels b) * 2"]
    by simp_all
  have "write_header b len \<lparr>bytes = replicate len 0, pos = 0, offset = 0\<rparr> =
    Inr \<lparr>bytes = (bytes_u32 (ToUint32 1179011410) @
     bytes_u32 (ToUint32 (real len - 8)) @
     bytes_u32 (ToUint32 1163280727) @
     bytes_u32 (ToUint32 544501094) @
     bytes_u32 (ToUint32 16) @
     bytes_u16 (ToUint16 1) @
     bytes_u16 (ToUint16 (real (numberOfChannels b))) @
     bytes_u32 (ToUint32 (sampleRate b)) @
     bytes_u32 (ToUint32 (sampleRate b * 2 * real (numberOfChannels b))) @
     bytes_u16 (ToUint16 (real (numberOfChannels b) * 2)) @
     bytes_u16 (ToUint16 16) @
     bytes_u32 (ToUint32 1635017060) @ bytes_u32 (ToUint32 (real len - 44))) @ replicate (len - 44) 0,
     pos = 44, offset = 0\<rparr>"
    using assms by (simp add: write_header_def setUint32_Inr setUint16_Inr)
  then show ?thesis
    unfolding tags sizes chans by (simp add: wav_header_def)
qed

text \<open>Overwriting \<open>length bs\<close> bytes of \<open>buf\<close> from index \<open>p\<close> on.\<close>

definition splice :: "nat \<Rightarrow> nat list \<Rightarrow> nat list \<Rightarrow> nat list" where
  "splice p bs buf = take p buf @ bs @ drop (p + length bs) buf"

lemma length_splice [simp]: "p + length bs \<le> length buf \<Longrightarrow> length (splice p bs buf) = length buf"
  by (simp add: splice_def)

lemma splice_Nil [simp]: "splice p [] buf = buf"
  by (simp add: splice_def)

lemma splice_splice:
  assumes "p + length a + length b \<le> length buf"
  shows "splice (p + length a) b (splice p a buf) = splice p (a @ b) buf"
proof -
  have "take (p + length a) (splice p a buf) = take p buf @ a"
    using assms by (simp add: splice_def)
  moreover have "drop (p + length a + length b) (splice p a buf) = drop (p + length a + length b) buf"
    using assms by (simp add: splice_def ac_simps)
  ultimately show ?thesis
    by (simp add: splice_def [of "p + length a"] splice_def [of p "a @ b"] ac_simps)
qed

lemma dv_set_splice:
  "p + length bs \<le> length buf \<Longrightarrow> dv_set p bs buf = Inr (splice p bs buf)"
  by (simp add: dv_set_def splice_def)

text \<open>
  The two bytes of one converted sample, the bytes of one frame (all channels in order)
  and the bytes of the frames with source index \<open>p\<close> up to \<open>len - 1\<close>.
\<close>

definition sample_bytes :: "sample list \<Rightarrow> nat \<Rightarrow> nat list" where
  "sample_bytes ch p = bytes_u16 (scale_sample (clamp_sample (typed_get ch (int p))))"

definition frame_bytes :: "sample list list \<Rightarrow> nat \<Rightarrow> nat list" where
  "frame_bytes chs p = concat (map (\<lambda>ch. sample_bytes ch p) chs)"

lemma length_sample_bytes [simp]: "length (sample_bytes ch p) = 2"
  by (simp add: sample_bytes_def)

lemma frame_bytes_Nil [simp]: "frame_bytes [] p = []"
  by (simp add: frame_bytes_def)

lemma frame_bytes_Cons: "frame_bytes (ch # chs) p = sample_bytes ch p @ frame_bytes chs p"
  by (simp add: frame_bytes_def)

lemma length_frame_bytes [simp]: "length (frame_bytes chs p) = 2 * length chs"
  by (induction chs) (simp_all add: frame_bytes_Cons)

lemma write_frame_Inr:
  "44 + offset w + 2 * length chs \<le> length (bytes w) \<Longrightarrow>
   write_frame chs w =
     Inr (w\<lparr>bytes := splice (44 + offset w) (frame_bytes chs (pos w)) (bytes w),
            offset := offset w + 2 * length chs\<rparr>)"
proof (induction chs arbitrary: w)
  case Nil
  then show ?case by simp
next
  case (Cons ch chs)
  let ?bs = "sample_bytes ch (pos w)"
  let ?p = "44 + offset w"
  let ?w' = "w\<lparr>bytes := splice ?p ?bs (bytes w), offset := offset w + 2\<rparr>"
  have fit: "?p + length ?bs \<le> length (bytes w)"
    using Cons.prems by simp
  have "dv_set ?p ?bs (bytes w) = Inr (splice ?p ?bs (bytes w))"
    using fit by (rule dv_set_splice)
  then have "write_frame (ch # chs) w = write_frame chs ?w'"
    by (simp add: sample_bytes_def)
  also have "\<dots> = Inr (?w'\<lparr>bytes := splice (44 + offset ?w') (frame_bytes chs (pos ?w')) (bytes ?w'),
            offset := offset ?w' + 2 * length chs\<rparr>)"
    using Cons.prems fit by (intro Cons.IH) simp
  also have "splice (44 + offset ?w') (frame_bytes chs (pos ?w')) (bytes ?w') =
     splice ?p (frame_bytes (ch # chs) (pos w)) (bytes w)"
  proof -
    have "splice (?p + length ?bs) (frame_bytes chs (pos w)) (splice ?p ?bs (bytes w)) =
      splice ?p (?bs @ frame_bytes chs (pos w)) (bytes w)"
      using Cons.prems by (intro splice_splice) simp
    moreover have "?p + length ?bs = 44 + offset ?w'" by simp
    ultimately show ?thesis by (simp add: frame_bytes_Cons)
  qed
  finally show ?case by simp
qed

definition frames_bytes :: "sample list list \<Rightarrow> nat \<Rightarrow> nat \<Rightarrow> nat list" where
  "frames_bytes chs p len = concat (map (frame_bytes chs) [p..<len])"

lemma length_frames_bytes [simp]: "length (frames_bytes chs p len) = 2 * length chs * (len - p)"
proof -
  have "length (concat (map (frame_bytes chs) ps)) = 2 * length chs * length ps" for ps
    by (induction ps) simp_all
  then show ?thesis by (simp add: frames_bytes_def)
qed

lemma frames_bytes_step: "p < len \<Longrightarrow> frames_bytes chs p len = frame_bytes chs p @ frames_bytes chs (Suc p) len"
  by (simp add: frames_bytes_def upt_conv_Cons)

lemma frames_bytes_done [simp]: "len \<le> p \<Longrightarrow> frames_bytes chs p len = []"
  by (simp add: frames_bytes_def)

lemma write_frames_Inr:
  "44 + offset w + 2 * length chs * (len - pos w) \<le> length (bytes w) \<Longrightarrow>
   write_frames len chs w =
     Inr (w\<lparr>bytes := splice (44 + offset w) (frames_bytes chs (pos w) len) (bytes w),
            pos := max (pos w) len,
            offset := offset w + 2 * length chs * (len - pos w)\<rparr>)"
proof (induction len chs w rule: write_frames.induct)
  case (1 len chs w)
  show ?case
  proof (cases "pos w < len")
    case False
    then show ?thesis by (subst write_frames.simps) (simp add: max_def)
  next
    case True
    let ?fb = "frame_bytes chs (pos w)"
    let ?w' = "w\<lparr>bytes := splice (44 + offset w) ?fb (bytes w),
            offset := offset w + 2 * length chs\<rparr>"
    let ?w'' = "?w'\<lparr>pos := pos ?w' + 1\<rparr>"
    have more: "2 * length chs * (len - pos w) = 2 * length chs + 2 * length chs * (len - Suc (pos w))"
      using True by (metis Suc_diff_Suc mult_Suc_right)
    have fit: "44 + offset w + 2 * length chs \<le> length (bytes w)"
      using "1.prems" more by simp
    have wf: "write_frame chs w = Inr ?w'"
      using fit by (rule write_frame_Inr)
    have fit': "44 + offset ?w'' + 2 * length chs * (len - pos ?w'') \<le> length (bytes ?w'')"
      using "1.prems" more fit by simp
    have "write_frames len chs w = write_frames len chs ?w''"
      using True wf by (subst write_frames.simps) simp
    also have "\<dots> = Inr (?w''\<lparr>bytes := splice (44 + offset ?w'') (frames_bytes chs (pos ?w'') len) (bytes ?w''),
            pos := max (pos ?w'') len,
            offset := offset ?w'' + 2 * length chs * (len - pos ?w'')\<rparr>)"
      using "1.IH" [OF True wf fit'] .
    also have "splice (44 + offset ?w'') (frames_bytes chs (pos ?w'') len) (bytes ?w'') =
        splice (44 + offset w) (frames_bytes chs (pos w) len) (bytes w)"
    proof -
      have "splice (44 + offset w + length ?fb) (frames_bytes chs (Suc (pos w)) len)
              (splice (44 + offset w) ?fb (bytes w)) =
            splice (44 + offset w) (?fb @ frames_bytes chs (Suc (pos w)) len) (bytes w)"
        using "1.prems" more by (intro splice_splice) simp
      moreover have "44 + offset w + length ?fb = 44 + offset ?w''" by simp
      ultimately show ?thesis using True by (simp add: frames_bytes_step add.assoc)
    qed
    finally show ?thesis using True more by (simp add: max_def)
  qed
qed

section \<open>What bufferToWav returns\<close>

text \<open>
  \<^verbatim>\<open>bufferToWav\<close> never raises. Its result is the header, then the frames of the
  buffer from source index 44 on (the value the cursor \<^verbatim>\<open>pos\<close> has after the
  header), then zero bytes up to the size of the file.
\<close>

lemma splice_after_prefix:
  "length pre = p \<Longrightarrow> length bs \<le> n \<Longrightarrow>
   splice p bs (pre @ replicate n 0) = pre @ bs @ replicate (n - length bs) 0"
  by (simp add: splice_def)

lemma bufferToWav_bytes:
  "bufferToWav b =
     Inr (wav_header b (length_frames b * numberOfChannels b * 2 + 44) @
          frames_bytes (channels b) 44 (length_frames b) @
          replicate (2 * numberOfChannels b * min 44 (length_frames b)) 0)"
proof -
  let ?F = "length_frames b" and ?C = "numberOfChannels b"
  let ?len = "?F * ?C * 2 + 44"
  let ?hdr = "wav_header b ?len"
  let ?w1 = "\<lparr>bytes = ?hdr @ replicate (?len - 44) 0, pos = 44, offset = 0\<rparr>"
  let ?fb = "frames_bytes (channels b) 44 ?F"
  have C: "length (channels b) = ?C" by (simp add: numberOfChannels_def)
  have hdr: "write_header b ?len \<lparr>bytes = replicate ?len 0, pos = 0, offset = 0\<rparr> = Inr ?w1"
    by (rule write_header_Inr) simp
  have room: "2 * ?C * (?F - 44) \<le> ?F * ?C * 2"
    by (simp add: algebra_simps diff_mult_distrib2)
  have rest: "?F * ?C * 2 - 2 * ?C * (?F - 44) = 2 * ?C * min 44 ?F"
    by (cases "44 \<le> ?F") (simp_all add: algebra_simps diff_mult_distrib2 min_def)
  have "write_frames ?F (channels b) ?w1 =
     Inr (?w1\<lparr>bytes := splice (44 + offset ?w1) (frames_bytes (channels b) (pos ?w1) ?F) (bytes ?w1),
            pos := max (pos ?w1) ?F,
            offset := offset ?w1 + 2 * length (channels b) * (?F - pos ?w1)\<rparr>)"
    using room by (intro write_frames_Inr) (simp add: C)
  moreover have "splice (44 + offset ?w1) (frames_bytes (channels b) (pos ?w1) ?F) (bytes ?w1) =
      ?hdr @ ?fb @ replicate (2 * ?C * min 44 ?F) 0"
    using room splice_after_prefix [of ?hdr 44 ?fb "?F * ?C * 2"] by (simp add: C rest)
  ultimately show ?thesis
    by (simp add: bufferToWav_def Let_def hdr)
qed

lemma length_bufferToWav:
  "bufferToWav b = Inr bs \<Longrightarrow> length bs = 44 + length_frames b * numberOfChannels b * 2"
proof -
  assume "bufferToWav b = Inr bs"
  then have bs: "bs = wav_header b (length_frames b * numberOfChannels b * 2 + 44) @
          frames_bytes (channels b) 44 (length_frames b) @
          replicate (2 * numberOfChannels b * min 44 (length_frames b)) 0"
    by (simp add: bufferToWav_bytes)
  show ?thesis
    by (cases "44 \<le> length_frames b")
      (simp_all add: bs numberOfChannels_def algebra_simps diff_mult_distrib2 min_def)
qed

section \<open>Properties of the rounding\<close>

lemma binade_bounds:
  "0 < x \<Longrightarrow> 2 powi binade x \<le> x \<and> x < 2 powi (binade x + 1)"
proof (induction x rule: binade.induct)
  case (1 x)
  consider "x < 1" | "2 \<le> x" | "1 \<le> x" "x < 2" by linarith
  then show ?case
  proof cases
    case 1
    then have b: "binade x = binade (2 * x) - 1"
      using "1.prems" by (subst binade.simps) simp
    have IH: "2 powi binade (2 * x) \<le> 2 * x \<and> 2 * x < 2 powi (binade (2 * x) + 1)"
      using "1.IH"(1) "1.prems" 1 by simp
    have "(2::real) powi binade (2 * x) = 2 powi (binade (2 * x) - 1) * 2"
      by (simp add: power_int_minus_mult)
    moreover have "(2::real) powi (binade (2 * x) + 1) = 2 powi binade (2 * x) * 2"
      by (simp add: power_int_add)
    ultimately show ?thesis using IH by (simp add: b)
  next
    case 2
    then have b: "binade x = binade (x / 2) + 1"
      by (subst binade.simps) simp
    have IH: "2 powi binade (x / 2) \<le> x / 2 \<and> x / 2 < 2 powi (binade (x / 2) + 1)"
      using "1.IH"(2) 2 by simp
    have "(2::real) powi (binade (x / 2) + 1) = 2 powi binade (x / 2) * 2"
      "(2::real) powi (binade (x / 2) + 1 + 1) = 2 powi (binade (x / 2) + 1) * 2"
      by (simp_all add: power_int_add)
    then show ?thesis using IH by (simp add: b)
  next
    case 3
    then have "binade x = 0" by (subst binade.simps) simp
    then show ?thesis using 3 by simp
  qed
qed

lemma binade_less:
  assumes "0 < x" "x < 2 powi k"
  shows "binade x < k"
proof (rule ccontr)
  assume "\<not> binade x < k"
  then have "(2::real) powi k \<le> 2 powi binade x"
    by (intro power_int_increasing) simp_all
  then show False using binade_bounds [OF assms(1)] assms(2) by linarith
qed

lemma round_half_even_le:
  assumes "y < of_int k + 1 / 2"
  shows "round_half_even y \<le> k"
proof -
  have f: "of_int \<lfloor>y\<rfloor> \<le> y" by simp
  have "\<lfloor>y\<rfloor> \<le> k" using assms by (simp add: floor_le_iff)
  moreover have "\<lfloor>y\<rfloor> + 1 \<le> k" if "1 / 2 \<le> y - of_int \<lfloor>y\<rfloor>"
  proof -
    have "of_int \<lfloor>y\<rfloor> < (of_int k :: real)" using that assms by linarith
    then show ?thesis by simp
  qed
  ultimately show ?thesis
    by (auto simp: round_half_even_def Let_def)
qed

lemma round_half_even_ge:
  assumes "of_int k \<le> y"
  shows "k \<le> round_half_even y"
proof -
  have "k \<le> \<lfloor>y\<rfloor>" using assms by (simp add: le_floor_iff)
  then show ?thesis by (auto simp: round_half_even_def Let_def)
qed

lemma fl_nonneg:
  assumes "0 \<le> x"
  shows "0 \<le> fl x"
proof (cases "x = 0")
  case True
  then show ?thesis by (simp add: fl_def)
next
  case False
  let ?q = "(2::real) powi (binade \<bar>x\<bar> - 52)"
  have q: "0 < ?q" by (simp add: power_int_def)
  then have "of_int 0 \<le> x / ?q" using assms by simp
  then have "0 \<le> round_half_even (x / ?q)" by (rule round_half_even_ge)
  then show ?thesis using False q by (simp add: fl_def Let_def)
qed




lemma round_half_even_bounds:
  "\<lfloor>y\<rfloor> \<le> round_half_even y" "round_half_even y \<le> \<lfloor>y\<rfloor> + 1"
  by (auto simp: round_half_even_def Let_def)

lemma round_half_even_mono:
  assumes "y1 \<le> y2"
  shows "round_half_even y1 \<le> round_half_even y2"
proof (cases "\<lfloor>y1\<rfloor> < \<lfloor>y2\<rfloor>")
  case True
  then have "round_half_even y1 \<le> \<lfloor>y2\<rfloor>"
    using round_half_even_bounds(2) [of y1] by linarith
  then show ?thesis using round_half_even_bounds(1) [of y2] by linarith
next
  case False
  then have f: "\<lfloor>y1\<rfloor> = \<lfloor>y2\<rfloor>" using floor_mono [OF assms] by linarith
  then have "y1 - of_int \<lfloor>y1\<rfloor> \<le> y2 - of_int \<lfloor>y2\<rfloor>" using assms by simp
  then show ?thesis
    unfolding round_half_even_def Let_def f by auto
qed

lemma round_half_even_of_int [simp]: "round_half_even (of_int k) = k"
  by (simp add: round_half_even_def)

lemma round_half_even_minus: "round_half_even (- y) = - round_half_even y"
proof (cases "y = of_int \<lfloor>y\<rfloor>")
  case True
  then have "round_half_even (- y) = round_half_even (of_int (- \<lfloor>y\<rfloor>))" by simp
  also have "\<dots> = - \<lfloor>y\<rfloor>" by (rule round_half_even_of_int)
  also have "\<lfloor>y\<rfloor> = round_half_even y"
    using round_half_even_of_int [of "\<lfloor>y\<rfloor>"] True by simp
  finally show ?thesis .
next
  case False
  then have fl: "\<lfloor>- y\<rfloor> = - \<lfloor>y\<rfloor> - 1"
    by (metis False ceiling_altdef ceiling_def add_diff_cancel_right' minus_diff_eq uminus_add_conv_diff
        diff_minus_eq_add neg_equal_iff_equal add.inverse_inverse)
  have r: "- y - of_int \<lfloor>- y\<rfloor> = 1 - (y - of_int \<lfloor>y\<rfloor>)" by (simp add: fl)
  have "0 < y - of_int \<lfloor>y\<rfloor>" using False by (metis diff_gt_0_iff_gt less_eq_real_def of_int_floor_le)
  then show ?thesis
    unfolding round_half_even_def Let_def r unfolding fl by auto
qed

lemma binade_mono:
  assumes "0 < x" "x \<le> y"
  shows "binade x \<le> binade y"
proof -
  have y: "0 < y" using assms by simp
  have "x < 2 powi (binade y + 1)" using binade_bounds [OF y] assms(2) by simp
  then have "binade x < binade y + 1" using assms(1) by (rule binade_less [rotated])
  then show ?thesis by simp
qed

lemma fl_pos_bounds:
  assumes "0 < x"
  shows "2 powi binade x \<le> fl x" and "fl x \<le> 2 powi (binade x + 1)"
proof -
  let ?q = "(2::real) powi (binade x - 52)"
  let ?n = "round_half_even (x / ?q)"
  have q: "0 < ?q" by (simp add: power_int_def)
  have flx: "fl x = of_int ?n * ?q" using assms by (simp add: fl_def Let_def)
  note bb = binade_bounds [OF assms]
  have lo: "(2::real) powi binade x = 2 ^ 52 * ?q"
    using power_int_add [of "2::real" 52 "binade x - 52"] by simp
  have hi: "(2::real) powi (binade x + 1) = 2 ^ 53 * ?q"
    using power_int_add [of "2::real" 53 "binade x - 52"] by (simp add: add.commute)
  have "of_int (2 ^ 52) \<le> x / ?q" using bb q by (simp add: lo pos_le_divide_eq)
  then have "2 ^ 52 \<le> ?n" by (rule round_half_even_ge)
  then have "(of_int (2 ^ 52) :: real) \<le> of_int ?n" by (simp only: of_int_le_iff)
  then have "2 ^ 52 * ?q \<le> of_int ?n * ?q" using q by (intro mult_right_mono) simp_all
  then show "2 powi binade x \<le> fl x" by (simp only: lo flx)
  have "x / ?q < 2 ^ 53" using bb q by (simp add: hi pos_divide_less_eq)
  also have "(2::real) ^ 53 < of_int (2 ^ 53) + 1 / 2" by simp
  finally have "?n \<le> 2 ^ 53" by (rule round_half_even_le)
  then have "(of_int ?n :: real) \<le> of_int (2 ^ 53)" by (simp only: of_int_le_iff)
  then have "of_int ?n * ?q \<le> 2 ^ 53 * ?q" using q by (intro mult_right_mono) simp_all
  then show "fl x \<le> 2 powi (binade x + 1)" by (simp only: hi flx)
qed

lemma fl_mono_pos:
  assumes "0 < x" "x \<le> y"
  shows "fl x \<le> fl y"
proof -
  have y: "0 < y" using assms by simp
  show ?thesis
  proof (cases "binade x = binade y")
    case True
    let ?q = "(2::real) powi (binade y - 52)"
    have q: "0 < ?q" by (simp add: power_int_def)
    have "x / ?q \<le> y / ?q" using assms(2) q by (simp add: divide_right_mono)
    then have "round_half_even (x / ?q) \<le> round_half_even (y / ?q)" by (rule round_half_even_mono)
    then have "(of_int (round_half_even (x / ?q)) :: real) \<le> of_int (round_half_even (y / ?q))"
      by (simp only: of_int_le_iff)
    then have "of_int (round_half_even (x / ?q)) * ?q \<le> of_int (round_half_even (y / ?q)) * ?q"
      using q by (intro mult_right_mono) simp_all
    then show ?thesis using assms(1) y by (simp add: fl_def Let_def True)
  next
    case False
    then have "binade x + 1 \<le> binade y" using binade_mono [OF assms] by simp
    then have "(2::real) powi (binade x + 1) \<le> 2 powi binade y"
      by (intro power_int_increasing) simp_all
    then show ?thesis
      using fl_pos_bounds(2) [OF assms(1)] fl_pos_bounds(1) [OF y] by linarith
  qed
qed

lemma fl_minus: "fl (- x) = - fl x"
  by (simp add: fl_def Let_def round_half_even_minus)

lemma fl_mono:
  assumes "x \<le> y"
  shows "fl x \<le> fl y"
proof -
  consider "0 < x" | "x \<le> 0" "0 \<le> y" | "y < 0" using assms by linarith
  then show ?thesis
  proof cases
    case 1
    then show ?thesis using assms by (rule fl_mono_pos)
  next
    case 2
    have "0 \<le> fl (- x)" using 2(1) by (intro fl_nonneg) simp
    then have "fl x \<le> 0" by (simp add: fl_minus)
    then show ?thesis using fl_nonneg [OF 2(2)] by linarith
  next
    case 3
    then have "fl (- y) \<le> fl (- x)" using assms by (intro fl_mono_pos) simp_all
    then show ?thesis by (simp add: fl_minus)
  qed
qed

lemma fl_of_nat:
  assumes "n < 2 ^ 53"
  shows "fl (real n) = real n"
proof (cases "n = 0")
  case True
  then show ?thesis by (simp add: fl_def)
next
  case False
  then have n: "0 < real n" by simp
  let ?e = "binade (real n)"
  let ?q = "(2::real) powi (?e - 52)"
  have "real n < 2 ^ 53" using assms by (metis of_nat_less_iff of_nat_numeral of_nat_power)
  then have "real n < 2 powi 53" by simp
  then have e: "?e < 53" using n by (intro binade_less)
  let ?k = "nat (52 - ?e)"
  have "?q = inverse (2 powi (52 - ?e))"
    using power_int_minus [of "2::real" "52 - ?e"] by simp
  also have "(2::real) powi (52 - ?e) = 2 ^ ?k"
    using e by (simp add: power_int_nonneg_exp)
  finally have qk: "?q = 1 / 2 ^ ?k" by (simp add: inverse_eq_divide)
  have "real n / ?q = of_int (int n * 2 ^ ?k)" by (simp add: qk)
  then have "round_half_even (real n / ?q) = int n * 2 ^ ?k"
    by (simp only: round_half_even_of_int)
  then have "fl (real n) = of_int (int n * 2 ^ ?k) * ?q"
    using n by (simp add: fl_def Let_def)
  then show ?thesis by (simp add: qk)
qed

lemma le_fl_of_nat:
  assumes "n < 2 ^ 53" "real n \<le> y"
  shows "real n \<le> fl y"
  using fl_mono [OF assms(2)] fl_of_nat [OF assms(1)] by simp

lemma round_half_even_close: "\<bar>of_int (round_half_even y) - y\<bar> \<le> 1 / 2"
proof -
  have "of_int \<lfloor>y\<rfloor> \<le> y" "y < of_int \<lfloor>y\<rfloor> + 1" by linarith+
  then show ?thesis by (auto simp: round_half_even_def Let_def)
qed

lemma fl_error_pos:
  assumes "0 < x"
  shows "\<bar>fl x - x\<bar> \<le> x / 2 ^ 53"
proof -
  let ?q = "(2::real) powi (binade x - 52)"
  let ?n = "round_half_even (x / ?q)"
  have q: "0 < ?q" by (simp add: power_int_def)
  have flx: "fl x = of_int ?n * ?q" using assms by (simp add: fl_def Let_def)
  have lo: "(2::real) powi binade x = 2 ^ 52 * ?q"
    using power_int_add [of "2::real" 52 "binade x - 52"] by simp
  have x: "2 ^ 52 * ?q \<le> x" using binade_bounds [OF assms] by (simp only: lo)
  have "fl x - x = (of_int ?n - x / ?q) * ?q" using q by (simp add: flx field_simps)
  then have "\<bar>fl x - x\<bar> = \<bar>of_int ?n - x / ?q\<bar> * ?q" using q by (simp add: abs_mult)
  also have "\<dots> \<le> 1 / 2 * ?q"
    using q round_half_even_close [of "x / ?q"] by (intro mult_right_mono) simp_all
  also have "\<dots> = (2 ^ 52 * ?q) / 2 ^ 53" by simp
  also have "\<dots> \<le> x / 2 ^ 53" using x by (intro divide_right_mono) simp_all
  finally show ?thesis .
qed

lemma fl_error: "\<bar>fl x - x\<bar> \<le> \<bar>x\<bar> / 2 ^ 53"
proof -
  consider "0 < x" | "x = 0" | "x < 0" by linarith
  then show ?thesis
  proof cases
    case 1
    then show ?thesis using fl_error_pos [of x] by simp
  next
    case 2
    then show ?thesis by (simp add: fl_def)
  next
    case 3
    then have "\<bar>fl (- x) - (- x)\<bar> \<le> (- x) / 2 ^ 53" by (intro fl_error_pos) simp
    then show ?thesis using 3 by (simp add: fl_minus abs_if split: if_splits)
  qed
qed

lemma fl_1 [simp]: "fl 1 = 1"
  using fl_of_nat [of 1] by simp

lemma fl_ratio_le_1:
  assumes "0 < b" "a \<le> b"
  shows "fl (a / b) \<le> 1"
proof -
  have "a / b \<le> 1" using assms by simp
  then have "fl (a / b) \<le> fl 1" by (rule fl_mono)
  then show ?thesis by simp
qed

lemma ceiling_fl_div:
  assumes "n < 2 ^ 53" "0 < w"
  shows "\<lceil>fl (real n / real w)\<rceil> = \<lceil>real n / real w\<rceil>"
proof (rule ceiling_unique)
  let ?q = "real n / real w"
  let ?k = "\<lceil>?q\<rceil>"
  have w: "0 < real w" "1 \<le> real w" using assms(2) by simp_all
  have q0: "0 \<le> ?q" by simp
  have n53: "real n < 2 ^ 53" using assms(1) by (metis of_nat_less_iff of_nat_numeral of_nat_power)
  have "?q \<le> real n" using w by (simp add: field_simps mult_le_cancel_left1)
  then have "?k \<le> int n" by (simp add: ceiling_le_iff)
  moreover have "(- 1 :: real) < ?q" by (rule less_le_trans [of _ 0]) simp_all
  then have k0: "0 \<le> ?k" by simp
  ultimately have "nat ?k < 2 ^ 53" using assms(1) by linarith
  then have "fl (real (nat ?k)) = real (nat ?k)" by (rule fl_of_nat)
  moreover have "real (nat ?k) = of_int ?k" using k0 by simp
  ultimately have flk: "fl (of_int ?k) = of_int ?k" by simp
  have "fl ?q \<le> fl (of_int ?k)" by (intro fl_mono le_of_int_ceiling)
  then show "fl ?q \<le> of_int ?k" by (simp only: flk)
  show "of_int ?k - 1 < fl ?q"
  proof (cases "n = 0")
    case True
    then show ?thesis by (simp add: fl_def)
  next
    case False
    have "?k - 1 < ?k" by simp
    then have "of_int (?k - 1) < ?q" by (simp only: less_ceiling_iff)
    then have "of_int (?k - 1) * real w < real n" using w by (simp add: pos_less_divide_eq)
    then have "real_of_int ((?k - 1) * int w) < real_of_int (int n)" by simp
    then have "(?k - 1) * int w < int n" by (simp only: of_int_less_iff)
    then have "(?k - 1) * int w + 1 \<le> int n" by simp
    then have "real_of_int ((?k - 1) * int w + 1) \<le> real_of_int (int n)" by (simp only: of_int_le_iff)
    then have "of_int (?k - 1) * real w + 1 \<le> real n" by simp
    then have "(of_int (?k - 1) * real w + 1) / real w \<le> ?q" by (intro divide_right_mono) simp_all
    then have lo: "of_int ?k - 1 + 1 / real w \<le> ?q" using w by (simp add: field_simps)
    have "\<bar>fl ?q - ?q\<bar> \<le> ?q / 2 ^ 53" using fl_error [of ?q] by simp
    moreover have "?q / 2 ^ 53 = (real n / 2 ^ 53) / real w" by simp
    moreover have "(real n / 2 ^ 53) / real w < 1 / real w"
      using n53 w by (intro divide_strict_right_mono) simp_all
    ultimately have "?q - 1 / real w < fl ?q" by linarith
    with lo show ?thesis by linarith
  qed
qed

lemma fl_pos:
  assumes "0 < x"
  shows "0 < fl x"
proof -
  have "(0::real) < 2 powi binade x" by simp
  then show ?thesis using fl_pos_bounds(1) [OF assms] by linarith
qed

lemma fl_neg:
  assumes "x < 0"
  shows "fl x < 0"
  using fl_pos [of "- x"] assms by (simp add: fl_minus)

lemma fl_le_0_iff: "fl x \<le> 0 \<longleftrightarrow> x \<le> 0"
proof -
  consider "x < 0" | "x = 0" | "0 < x" by linarith
  then show ?thesis
  proof cases
    case 1
    then show ?thesis using fl_neg [of x] by simp
  next
    case 2
    then show ?thesis by (simp add: fl_def)
  next
    case 3
    then show ?thesis using fl_pos [of x] by simp
  qed
qed

lemma fl_of_int:
  assumes "\<bar>k\<bar> < 2 ^ 53"
  shows "fl (of_int k) = of_int k"
proof (cases "0 \<le> k")
  case True
  then have "int (nat k) < 2 ^ 53" using assms by simp
  then have "nat k < 2 ^ 53" by (metis of_nat_less_iff of_nat_numeral of_nat_power)
  then have "fl (real (nat k)) = real (nat k)" by (rule fl_of_nat)
  then show ?thesis using True by simp
next
  case False
  then have "int (nat (- k)) < 2 ^ 53" using assms by simp
  then have "nat (- k) < 2 ^ 53" by (metis of_nat_less_iff of_nat_numeral of_nat_power)
  then have "fl (real (nat (- k))) = real (nat (- k))" by (rule fl_of_nat)
  then have "fl (- of_int k) = - of_int k" using False by simp
  then show ?thesis by (simp add: fl_minus)
qed

lemma fl_ge_pow2:
  assumes "2 powi k \<le> x"
  shows "2 powi k \<le> fl x"
proof -
  have x: "0 < x" by (rule less_le_trans [OF _ assms]) simp
  have "k \<le> binade x"
  proof (rule ccontr)
    assume "\<not> k \<le> binade x"
    then have "binade x + 1 \<le> k" by simp
    then have "(2::real) powi (binade x + 1) \<le> 2 powi k" by (intro power_int_increasing) simp_all
    then show False using binade_bounds [OF x] assms by linarith
  qed
  then have "(2::real) powi k \<le> 2 powi binade x" by (intro power_int_increasing) simp_all
  then show ?thesis using fl_pos_bounds(1) [OF x] by linarith
qed

lemma to_number_overflow:
  assumes "2 ^ 1024 \<le> x"
  shows "to_number x = PosInf"
proof -
  have "(2::real) powi 1024 \<le> x" using assms by simp
  then have "(2::real) powi 1024 \<le> fl x" by (rule fl_ge_pow2)
  then show ?thesis by (simp add: to_number_def Let_def)
qed

lemma to_number_of_int:
  assumes "\<bar>k\<bar> < 2 ^ 53"
  shows "to_number (of_int k) = Num (of_int k)"
proof -
  have "\<bar>real_of_int k\<bar> < 2 ^ 53"
    using assms by (metis of_int_abs of_int_less_iff of_int_numeral of_int_power)
  moreover have "(2::real) ^ 53 < 2 ^ 1024" by simp
  ultimately have "\<bar>real_of_int k\<bar> < 2 ^ 1024" by (rule less_trans)
  then show ?thesis by (simp add: to_number_def Let_def fl_of_int [OF assms] abs_if split: if_splits)
qed

lemma to_number_le_0: "js_le (to_number x) (Num 0) \<longleftrightarrow> x \<le> 0"
proof (cases "x \<le> 0")
  case True
  then have "fl x \<le> 0" by (simp add: fl_le_0_iff)
  moreover have "(0::real) < 2 ^ 1024" by simp
  ultimately have "\<not> 2 ^ 1024 \<le> fl x" by linarith
  then show ?thesis using True \<open>fl x \<le> 0\<close> by (simp add: to_number_def Let_def)
next
  case False
  then have "\<not> fl x \<le> 0" by (simp add: fl_le_0_iff)
  moreover have "(0::real) < 2 ^ 1024" by simp
  ultimately have "\<not> fl x \<le> - (2 ^ 1024)" by linarith
  then show ?thesis using False \<open>\<not> fl x \<le> 0\<close> by (simp add: to_number_def Let_def)
qed

section \<open>Properties of the copy\<close>

text \<open>
  What the inner loop leaves in the new array when it is entered with the counter at \<open>J\<close>:
  the positions from \<open>J\<close> to the frame count whose source index is below the length of the
  source hold what is read there; the others are as they were.
\<close>

definition segment :: "sample list \<Rightarrow> number \<Rightarrow> nat \<Rightarrow> nat \<Rightarrow> sample list \<Rightarrow> sample list" where
  "segment cd ss N J new =
     map (\<lambda>k. if J \<le> k \<and> k < N \<and>
                   js_less (js_add ss (Num (real k))) (Num (real (length cd)))
                then to_float32 (typed_get_num cd (js_add ss (Num (real k))))
                else new ! k) [0..<length new]"

lemma length_segment [simp]: "length (segment cd ss N J new) = length new"
  by (simp add: segment_def)

lemma typed_set_nat:
  "typed_set a (real J) v = (if J < length a then a[J := v] else a)"
  by (simp add: typed_set_def)

lemma segment_done: "N \<le> J \<Longrightarrow> segment cd ss N J new = new"
  by (rule nth_equalityI) (auto simp: segment_def)

lemma segment_step:
  assumes "J < N"
  shows "segment cd ss N (Suc J)
           (if js_less (js_add ss (Num (real J))) (Num (real (length cd)))
            then typed_set new (real J) (to_float32 (typed_get_num cd (js_add ss (Num (real J)))))
            else new) =
         segment cd ss N J new"
proof (rule nth_equalityI)
  show "length (segment cd ss N (Suc J)
           (if js_less (js_add ss (Num (real J))) (Num (real (length cd)))
            then typed_set new (real J) (to_float32 (typed_get_num cd (js_add ss (Num (real J)))))
            else new)) = length (segment cd ss N J new)"
    by (simp add: typed_set_nat)
next
  fix k
  assume "k < length (segment cd ss N (Suc J)
           (if js_less (js_add ss (Num (real J))) (Num (real (length cd)))
            then typed_set new (real J) (to_float32 (typed_get_num cd (js_add ss (Num (real J)))))
            else new))"
  then have k: "k < length new" by (simp add: typed_set_nat split: if_splits)
  consider "k = J" | "k < J" | "J < k" by linarith
  then show "segment cd ss N (Suc J)
           (if js_less (js_add ss (Num (real J))) (Num (real (length cd)))
            then typed_set new (real J) (to_float32 (typed_get_num cd (js_add ss (Num (real J)))))
            else new) ! k = segment cd ss N J new ! k"
  proof cases
    case 1
    then show ?thesis using k assms by (simp add: segment_def typed_set_nat)
  next
    case 2
    then show ?thesis using k by (simp add: segment_def typed_set_nat)
  next
    case 3
    then show ?thesis using k by (simp add: segment_def typed_set_nat)
  qed
qed

lemma copy_segment_Some:
  assumes "N < 2 ^ 53" "J \<le> N"
  shows "copy_segment cd ss (Num (real N)) (real J) new = Some (segment cd ss N J new)"
  using assms(2)
proof (induction "N - J" arbitrary: J new)
  case 0
  then have "J = N" by simp
  then show ?case by (subst copy_segment.simps) (simp add: segment_done)
next
  case (Suc d)
  then have J: "J < N" "d = N - Suc J" "Suc J \<le> N" by simp_all
  have "Suc J < 2 ^ 53" using J(3) assms(1) by simp
  then have "fl (real (Suc J)) = real (Suc J)" by (rule fl_of_nat)
  then have next_j: "fl (real J + 1) = real (Suc J)" by (simp add: add.commute)
  let ?new = "if js_less (js_add ss (Num (real J))) (Num (real (length cd)))
            then typed_set new (real J) (to_float32 (typed_get_num cd (js_add ss (Num (real J)))))
            else new"
  have "copy_segment cd ss (Num (real N)) (real J) new =
      copy_segment cd ss (Num (real N)) (fl (real J + 1)) ?new"
    using J(1) by (subst copy_segment.simps) (simp only: js_less.simps of_nat_less_iff if_True)
  also have "\<dots> = copy_segment cd ss (Num (real N)) (real (Suc J)) ?new"
    by (simp only: next_j)
  also have "\<dots> = Some (segment cd ss N (Suc J) ?new)"
    by (rule Suc.hyps(1) [OF J(2,3)])
  also have "\<dots> = Some (segment cd ss N J new)"
    by (simp only: segment_step [OF J(1)])
  finally show ?case .
qed

lemma index_sum:
  assumes "0 \<le> s" "len < 2 ^ 53"
  shows "js_less (js_add (Num (of_int s)) (Num (real k))) (Num (real len)) \<longleftrightarrow> s + int k < int len"
    and "s + int k < int len \<Longrightarrow>
         typed_get_num cd (js_add (Num (of_int s)) (Num (real k))) = typed_get cd (s + int k)"
proof -
  let ?m = "s + int k"
  have sum: "js_add (Num (of_int s)) (Num (real k)) = to_number (of_int ?m)" by simp
  have len: "int len < 2 ^ 53"
    using assms(2) by (metis of_nat_less_iff of_nat_numeral of_nat_power)
  have m0: "0 \<le> ?m" using assms(1) by simp
  have small: "to_number (of_int ?m) = Num (of_int ?m)" if "?m < 2 ^ 53"
    using that m0 by (intro to_number_of_int) simp
  have large: "\<not> js_less (to_number (of_int ?m)) (Num (real len))" if "\<not> ?m < 2 ^ 53"
  proof -
    have "(2 ^ 53 :: int) \<le> ?m" using that by simp
    then have "real_of_int (2 ^ 53) \<le> of_int ?m" by (simp only: of_int_le_iff)
    then have "(2::real) powi 53 \<le> of_int ?m" by simp
    then have "(2::real) powi 53 \<le> fl (of_int ?m)" by (rule fl_ge_pow2)
    then have r: "(2::real) ^ 53 \<le> fl (of_int ?m)" by simp
    have "real len < 2 ^ 53"
      using assms(2) by (metis of_nat_less_iff of_nat_numeral of_nat_power)
    then have "\<not> fl (of_int ?m) < real len" using r by linarith
    moreover have "\<not> fl (of_int ?m) \<le> - (2 ^ 1024)"
    proof -
      have "(0::real) < 2 ^ 53" "(0::real) < 2 ^ 1024" by simp_all
      then show ?thesis using r by linarith
    qed
    ultimately show ?thesis by (simp add: to_number_def Let_def)
  qed
  show "js_less (js_add (Num (of_int s)) (Num (real k))) (Num (real len)) \<longleftrightarrow> ?m < int len"
  proof (cases "?m < 2 ^ 53")
    case True
    have "real_of_int ?m < real_of_int (int len) \<longleftrightarrow> ?m < int len" by (rule of_int_less_iff)
    then show ?thesis unfolding sum small [OF True] by simp
  next
    case False
    then have "\<not> ?m < int len" using len by linarith
    then show ?thesis unfolding sum using large [OF False] by simp
  qed
  show "typed_get_num cd (js_add (Num (of_int s)) (Num (real k))) = typed_get cd ?m"
    if "?m < int len"
  proof -
    have "?m < 2 ^ 53" using that len by linarith
    then have "js_add (Num (of_int s)) (Num (real k)) = Num (of_int ?m)"
      unfolding sum by (rule small)
    then show ?thesis by (simp only: typed_get_num_def number.case floor_of_int refl if_True)
  qed
qed

declare copy_channels.simps [simp del]

lemma copy_channels_Some:
  assumes "N < 2 ^ 53"
  shows "copy_channels b ss (Num (real N)) i nb =
     Some (nb\<lparr>channels :=
        map (\<lambda>c. if i \<le> c \<and> c < numberOfChannels b
                  then segment (channels b ! c) ss N 0 (channels nb ! c)
                  else channels nb ! c) [0..<length (channels nb)]\<rparr>)"
proof (induction b ss "Num (real N)" i nb rule: copy_channels.induct)
  case (1 b ss i nb)
  show ?case
  proof (cases "i < numberOfChannels b")
    case False
    have "map (\<lambda>c. if i \<le> c \<and> c < numberOfChannels b
                  then segment (channels b ! c) ss N 0 (channels nb ! c)
                  else channels nb ! c) [0..<length (channels nb)] = channels nb"
      using False by - (rule nth_equalityI, auto)
    then show ?thesis using False by (subst copy_channels.simps) simp
  next
    case True
    let ?d = "segment (channels b ! i) ss N 0 (channels nb ! i)"
    let ?nb = "nb\<lparr>channels := (channels nb)[i := ?d]\<rparr>"
    have seg: "copy_segment (channels b ! i) ss (Num (real N)) 0 (channels nb ! i) = Some ?d"
      using copy_segment_Some [OF assms, of 0] by simp
    have "copy_channels b ss (Num (real N)) i nb = copy_channels b ss (Num (real N)) (i + 1) ?nb"
      using True by (subst copy_channels.simps) (simp add: seg)
    also have "\<dots> = Some (?nb\<lparr>channels :=
        map (\<lambda>c. if i + 1 \<le> c \<and> c < numberOfChannels b
                  then segment (channels b ! c) ss N 0 (channels ?nb ! c)
                  else channels ?nb ! c) [0..<length (channels ?nb)]\<rparr>)"
      using True seg by (rule "1.hyps")
    also have "map (\<lambda>c. if i + 1 \<le> c \<and> c < numberOfChannels b
                  then segment (channels b ! c) ss N 0 (channels ?nb ! c)
                  else channels ?nb ! c) [0..<length (channels ?nb)] =
        map (\<lambda>c. if i \<le> c \<and> c < numberOfChannels b
                  then segment (channels b ! c) ss N 0 (channels nb ! c)
                  else channels nb ! c) [0..<length (channels nb)]"
    proof (rule map_cong [OF _ ])
      show "[0..<length (channels ?nb)] = [0..<length (channels nb)]" by simp
    next
      fix c assume "c \<in> set [0..<length (channels nb)]"
      then have c: "c < length (channels nb)" by simp
      consider "c = i" | "c < i" | "i < c" by linarith
      then show "(if i + 1 \<le> c \<and> c < numberOfChannels b
                  then segment (channels b ! c) ss N 0 (channels ?nb ! c)
                  else channels ?nb ! c) =
                 (if i \<le> c \<and> c < numberOfChannels b
                  then segment (channels b ! c) ss N 0 (channels nb ! c)
                  else channels nb ! c)"
      proof cases
        case 1
        then show ?thesis using True c by simp
      next
        case 2
        then show ?thesis using c by simp
      next
        case 3
        then show ?thesis using c by simp
      qed
    qed
    finally show ?thesis by simp
  qed
qed

lemma extract_buffer_Some:
  assumes "channels b \<noteq> []" "0 < sampleRate b"
    and s: "Math_floor (js_times st (sampleRate b)) = Num (of_int s)"
    and e: "Math_floor (js_times en (sampleRate b)) = Num (of_int e)"
    and d: "0 < e - s" "e - s < 2 ^ 32"
  shows "extract_buffer b st en =
     Some (Inr \<lparr>sampleRate = sampleRate b, length_frames = nat (e - s),
        channels = map (\<lambda>c. segment (channels b ! c) (Num (of_int s)) (nat (e - s)) 0
                              (replicate (nat (e - s)) (Fin 0))) [0..<numberOfChannels b]\<rparr>)"
proof -
  let ?n = "nat (e - s)"
  let ?z = "\<lparr>sampleRate = sampleRate b, length_frames = ?n,
        channels = replicate (numberOfChannels b) (replicate ?n (Fin 0))\<rparr>"
  have "\<bar>e - s\<bar> < 2 ^ 53" using d by simp
  then have "to_number (of_int (e - s)) = Num (of_int (e - s))" by (rule to_number_of_int)
  then have fc: "js_minus (Num (of_int e)) (Num (of_int s)) = Num (real ?n)"
    using d(1) by (simp add: js_minus_def)
  have rn: "real ?n = real_of_int (e - s)" using d(1) by simp
  have "unsigned_long (Num (real_of_int (e - s))) = (e - s) mod 2 ^ 32"
    by (simp only: unsigned_long_def number.case ToUint32_def js_trunc_of_int)
  then have u: "unsigned_long (Num (real ?n)) = e - s"
    using d by (simp only: rn mod_pos_pos_trivial less_imp_le)
  have cb: "createBuffer (numberOfChannels b) (Num (real ?n)) (sampleRate b) = Inr ?z"
    unfolding createBuffer_def u Let_def using assms(1,2) d(1) by (simp add: numberOfChannels_def)
  have "int ?n < 2 ^ 53" using d by simp
  then have n53: "?n < 2 ^ 53" by (metis of_nat_less_iff of_nat_numeral of_nat_power)
  have pos: "\<not> js_le (Num (real ?n)) (Num 0)" using d(1) by simp
  have "extract_buffer b st en =
      map_option Inr (copy_channels b (Num (of_int s)) (Num (real ?n)) 0 ?z)"
    by (simp add: extract_buffer_def s e fc pos cb del: js_le.simps)
  also have "copy_channels b (Num (of_int s)) (Num (real ?n)) 0 ?z =
      Some (?z\<lparr>channels :=
        map (\<lambda>c. if 0 \<le> c \<and> c < numberOfChannels b
                  then segment (channels b ! c) (Num (of_int s)) ?n 0 (channels ?z ! c)
                  else channels ?z ! c) [0..<length (channels ?z)]\<rparr>)"
    using n53 by (rule copy_channels_Some)
  also have "map (\<lambda>c. if 0 \<le> c \<and> c < numberOfChannels b
                  then segment (channels b ! c) (Num (of_int s)) ?n 0 (channels ?z ! c)
                  else channels ?z ! c) [0..<length (channels ?z)] =
       map (\<lambda>c. segment (channels b ! c) (Num (of_int s)) ?n 0 (replicate ?n (Fin 0)))
         [0..<numberOfChannels b]"
    by (rule nth_equalityI) simp_all
  finally show ?thesis by simp
qed

definition copied :: "sample list \<Rightarrow> int \<Rightarrow> nat \<Rightarrow> sample" where
  "copied cd s j = (if s + int j < int (length cd) then to_float32 (typed_get cd (s + int j)) else Fin 0)"

lemma wf_buffer_nth:
  "wf_buffer b \<Longrightarrow> c < numberOfChannels b \<Longrightarrow> length (channels b ! c) = length_frames b"
  by (simp add: wf_buffer_def list_all_length numberOfChannels_def)

lemma segment_copied:
  assumes "0 \<le> s" "length cd < 2 ^ 53" "j < n"
  shows "segment cd (Num (of_int s)) n 0 (replicate n (Fin 0)) ! j = copied cd s j"
  using assms(3) index_sum [OF assms(1,2)]
  by (simp add: segment_def copied_def)

lemma extract_buffer_ok:
  assumes "wf_buffer b"
    and s: "Math_floor (js_times st (sampleRate b)) = Num (of_int s)"
    and e: "Math_floor (js_times en (sampleRate b)) = Num (of_int e)"
    and d: "0 < e - s" "e - s < 2 ^ 32"
  shows "\<exists>nb. extract_buffer b st en = Some (Inr nb) \<and>
           sampleRate nb = sampleRate b \<and> int (length_frames nb) = e - s \<and>
           numberOfChannels nb = numberOfChannels b \<and> wf_buffer nb \<and>
           (0 \<le> s \<and> length_frames b < 2 ^ 53 \<longrightarrow>
              (\<forall>c j. c < numberOfChannels b \<and> int j < e - s \<longrightarrow>
                 channels nb ! c ! j = copied (channels b ! c) s j))"
proof -
  let ?n = "nat (e - s)"
  let ?nb = "\<lparr>sampleRate = sampleRate b, length_frames = ?n,
        channels = map (\<lambda>c. segment (channels b ! c) (Num (of_int s)) ?n 0
                              (replicate ?n (Fin 0))) [0..<numberOfChannels b]\<rparr>"
  have b: "channels b \<noteq> []" "0 < sampleRate b" using assms(1) by (simp_all add: wf_buffer_def)
  have r: "extract_buffer b st en = Some (Inr ?nb)"
    using b s e d by (rule extract_buffer_Some)
  have n: "0 < numberOfChannels b" using b(1) by (simp add: numberOfChannels_def)
  have wf: "wf_buffer ?nb"
    using b n d(1) by (simp add: wf_buffer_def list_all_iff)
  have val: "channels ?nb ! c ! j = copied (channels b ! c) s j"
    if "0 \<le> s" "length_frames b < 2 ^ 53" "c < numberOfChannels b" "int j < e - s" for c j
  proof -
    have "length (channels b ! c) < 2 ^ 53"
      using wf_buffer_nth [OF assms(1) that(3)] that(2) by simp
    moreover have "j < ?n" using that(4) by linarith
    ultimately show ?thesis using that(1,3) by (simp add: segment_copied)
  qed
  have "sampleRate ?nb = sampleRate b \<and> int (length_frames ?nb) = e - s \<and>
        numberOfChannels ?nb = numberOfChannels b"
    using d(1) by (simp add: numberOfChannels_def)
  then show ?thesis using r wf val by blast
qed

lemma bufferToWav_total: "\<exists>bs. bufferToWav b = Inr bs"
  by (simp add: bufferToWav_bytes)

lemma extractClip_Some:
  assumes "extract_buffer b st en = Some (Inr nb)"
  shows "extractClip b st en = Some (bufferToWav nb)"
  using assms by (simp add: extractClip_def)

lemma to_number_Num:
  assumes "to_number z = Num y"
  shows "y = fl z"
  using assms by (simp add: to_number_def Let_def split: if_splits)

lemma invalid_iff:
  "extractClip b st en = Some (Inl InvalidTimeRange) \<longleftrightarrow>
   js_le (js_minus (Math_floor (js_times en (sampleRate b)))
                   (Math_floor (js_times st (sampleRate b)))) (Num 0)"
  by (auto simp: extractClip_def extract_buffer_def Let_def createBuffer_def bufferToWav_bytes
      split: sum.splits option.splits if_splits)

lemma invalid_when_not_after:
  assumes "0 \<le> sampleRate b" "en \<le> st"
    and "js_times st (sampleRate b) = Num x" "js_times en (sampleRate b) = Num y"
  shows "extractClip b st en = Some (Inl InvalidTimeRange)"
proof -
  have "en * sampleRate b \<le> st * sampleRate b" using assms(2,1) by (rule mult_right_mono)
  then have "fl (en * sampleRate b) \<le> fl (st * sampleRate b)" by (rule fl_mono)
  then have "y \<le> x"
    using to_number_Num [OF assms(3) [unfolded js_times_def]]
      to_number_Num [OF assms(4) [unfolded js_times_def]] by simp
  then have "\<lfloor>y\<rfloor> \<le> \<lfloor>x\<rfloor>" by (rule floor_mono)
  then have "real_of_int \<lfloor>y\<rfloor> + - real_of_int \<lfloor>x\<rfloor> \<le> 0" by simp
  then have "js_le (to_number (real_of_int \<lfloor>y\<rfloor> + - real_of_int \<lfloor>x\<rfloor>)) (Num 0)"
    by (simp only: to_number_le_0)
  then show ?thesis
    by (simp add: invalid_iff assms(3,4) js_minus_def del: js_le.simps)
qed

section \<open>extractClip: failure and the shape of the result\<close>

text \<open>
  Claim C3 has every call with \<open>endTime \<le> startTime\<close> fail with the invalid-range error.
  Where both products overflow, the two indices are the same infinity and the frame count
  is NaN; the guard \<^verbatim>\<open>frameCount <= 0\<close> is false for it, and it is
  \<^verbatim>\<open>createBuffer\<close> that raises, \<^verbatim>\<open>NotSupportedError\<close>: at 8000 Hz, both times
  \<open>2 ^ 1023\<close> s.
\<close>

theorem extractClip_overflow_not_invalid:
  "(2 ^ 1023 :: real) \<le> 2 ^ 1023 \<and>
   js_times (2 ^ 1023) 8000 = PosInf \<and>
   extractClip \<lparr>sampleRate = 8000, length_frames = 2, channels = [[Fin 1, Fin (- 1)]]\<rparr>
     (2 ^ 1023) (2 ^ 1023) = Some (Inl NotSupportedError)"
proof -
  have "(2::real) ^ 1024 \<le> 2 ^ 1023 * 8000" by simp
  then have inf: "js_times (2 ^ 1023) 8000 = PosInf"
    unfolding js_times_def by (rule to_number_overflow)
  then show ?thesis
    by (simp add: extractClip_def extract_buffer_def js_minus_def createBuffer_def
        unsigned_long_def)
qed

text \<open>
  Claim C3, amended. \<^verbatim>\<open>extractClip\<close> raises the invalid-range error exactly when the
  computed frame count, \<open>\<lfloor>endTime * sampleRate\<rfloor> - \<lfloor>startTime * sampleRate\<rfloor>\<close> as the code
  computes it, is zero or negative; it does so for every call with
  \<open>endTime \<le> startTime\<close> whose two products with the sample rate are finite (the sample
  rate of a buffer is not negative). The result is then an error: no bytes are produced.
\<close>

theorem extractClip_invalid_range:
  "(extractClip b st en = Some (Inl InvalidTimeRange) \<longleftrightarrow>
      js_le (js_minus (Math_floor (js_times en (sampleRate b)))
                      (Math_floor (js_times st (sampleRate b)))) (Num 0)) \<and>
   (0 \<le> sampleRate b \<and> en \<le> st \<and>
    js_times st (sampleRate b) = Num x \<and> js_times en (sampleRate b) = Num y \<longrightarrow>
      extractClip b st en = Some (Inl InvalidTimeRange))"
  using invalid_iff [of b st en] invalid_when_not_after [of b en st x y] by blast

text \<open>The theorem at a call with \<open>endTime = startTime\<close>.\<close>

theorem extractClip_invalid_range_witness:
  "(0::real) \<le> sampleRate \<lparr>sampleRate = 8000, length_frames = 2, channels = [[Fin 1, Fin (- 1)]]\<rparr> \<and>
   (1 / 4096 :: real) \<le> 1 / 4096 \<and>
   js_times (1 / 4096)
     (sampleRate \<lparr>sampleRate = 8000, length_frames = 2, channels = [[Fin 1, Fin (- 1)]]\<rparr>) =
     Num (125 / 64) \<and>
   extractClip \<lparr>sampleRate = 8000, length_frames = 2, channels = [[Fin 1, Fin (- 1)]]\<rparr>
     (1 / 4096) (1 / 4096) = Some (Inl InvalidTimeRange)"
proof -
  have p: "js_times (1 / 4096) 8000 = Num (125 / 64)"
    by (simp add: js_times_def to_number_def fl_eval)
  show ?thesis
    using extractClip_invalid_range
      [of "\<lparr>sampleRate = 8000, length_frames = 2, channels = [[Fin 1, Fin (- 1)]]\<rparr>"
          "1 / 4096" "1 / 4096" "125 / 64" "125 / 64"] p
    by simp
qed

text \<open>
  Claim C2 says that \<open>endTime > startTime\<close> is enough for the call to succeed. It is
  not: at 8000 Hz the range from 0 to 1/16384 s holds no frame, and the guard raises.
\<close>

theorem extractClip_short_range_fails:
  "(0::real) < 1 / 16384 \<and>
   extract_buffer \<lparr>sampleRate = 8000, length_frames = 2, channels = [[Fin 1, Fin (- 1)]]\<rparr> 0 (1 / 16384)
     = Some (Inl InvalidTimeRange) \<and>
   extractClip \<lparr>sampleRate = 8000, length_frames = 2, channels = [[Fin 1, Fin (- 1)]]\<rparr> 0 (1 / 16384)
     = Some (Inl InvalidTimeRange)"
proof -
  have p: "js_times 0 8000 = Num 0" "js_times (1 / 16384) 8000 = Num (125 / 256)"
    by (simp_all add: js_times_def to_number_def fl_eval)
  have "js_minus (Num 0) (Num 0) = Num 0"
    by (simp add: js_minus_def to_number_def fl_def)
  then show ?thesis
    by (simp add: extractClip_def extract_buffer_def p)
qed

text \<open>
  Claim C2, amended. For every well-formed buffer and every pair of times whose computed
  indices \<open>\<lfloor>startTime * sampleRate\<rfloor>\<close> and \<open>\<lfloor>endTime * sampleRate\<rfloor>\<close> are finite and
  whose frame count, the second index less the first, is positive and below \<open>2 ^ 32\<close>
  (the length of a buffer is an \<^verbatim>\<open>unsigned long\<close>), \<^verbatim>\<open>extractClip\<close> succeeds; the
  buffer it builds has exactly that many frames and the sample rate and channel count of
  the input, and the bytes returned are its encoding, 44 bytes of header and two bytes per
  sample.
\<close>

theorem extractClip_frame_count:
  assumes "wf_buffer b"
    and "Math_floor (js_times st (sampleRate b)) = Num (of_int s)"
    and "Math_floor (js_times en (sampleRate b)) = Num (of_int e)"
    and "0 < e - s" and "e - s < 2 ^ 32"
  shows "\<exists>nb bs. extract_buffer b st en = Some (Inr nb) \<and>
           int (length_frames nb) = e - s \<and>
           sampleRate nb = sampleRate b \<and>
           numberOfChannels nb = numberOfChannels b \<and>
           wf_buffer nb \<and>
           extractClip b st en = Some (Inr bs) \<and>
           length bs = 44 + length_frames nb * numberOfChannels nb * 2"
proof -
  from extract_buffer_ok [OF assms] obtain nb where
    nb: "extract_buffer b st en = Some (Inr nb)" "sampleRate nb = sampleRate b"
      "int (length_frames nb) = e - s" "numberOfChannels nb = numberOfChannels b" "wf_buffer nb"
    by blast
  obtain bs where bs: "bufferToWav nb = Inr bs"
    using bufferToWav_total by blast
  show ?thesis
    using nb bs length_bufferToWav [OF bs] extractClip_Some [OF nb(1)] by simp
qed

text \<open>
  The theorem at a one-channel buffer, for the range from 1/4096 s to 1/2 s, which at
  8000 Hz are the indices 1 and 4000.
\<close>

theorem extractClip_frame_count_witness:
  "wf_buffer \<lparr>sampleRate = 8000, length_frames = 2, channels = [[Fin 1, Fin (- 1)]]\<rparr> \<and>
   Math_floor (js_times (1 / 4096) 8000) = Num 1 \<and>
   Math_floor (js_times (1 / 2) 8000) = Num 4000 \<and>
   (\<exists>nb bs. extract_buffer \<lparr>sampleRate = 8000, length_frames = 2, channels = [[Fin 1, Fin (- 1)]]\<rparr>
                (1 / 4096) (1 / 2) = Some (Inr nb) \<and>
           length_frames nb = 3999 \<and> sampleRate nb = 8000 \<and> numberOfChannels nb = 1 \<and>
           extractClip \<lparr>sampleRate = 8000, length_frames = 2, channels = [[Fin 1, Fin (- 1)]]\<rparr>
                (1 / 4096) (1 / 2) = Some (Inr bs) \<and>
           length bs = 8042)"
proof -
  let ?B = "\<lparr>sampleRate = 8000, length_frames = 2, channels = [[Fin 1, Fin (- 1)]]\<rparr>"
  have wf: "wf_buffer ?B" by (simp add: wf_buffer_def)
  have i: "Math_floor (js_times (1 / 4096) 8000) = Num 1"
    "Math_floor (js_times (1 / 2) 8000) = Num 4000"
    by (simp_all add: js_times_def to_number_def fl_eval)
  have s: "Math_floor (js_times (1 / 4096) (sampleRate ?B)) = Num (of_int 1)"
    and e: "Math_floor (js_times (1 / 2) (sampleRate ?B)) = Num (of_int 4000)"
    using i by simp_all
  have d: "(0::int) < 4000 - 1" "(4000::int) - 1 < 2 ^ 32" by simp_all
  from extractClip_frame_count [OF wf s e d] obtain nb bs where
    r: "extract_buffer ?B (1 / 4096) (1 / 2) = Some (Inr nb)"
      "int (length_frames nb) = 4000 - 1"
      "sampleRate nb = sampleRate ?B" "numberOfChannels nb = numberOfChannels ?B"
      "extractClip ?B (1 / 4096) (1 / 2) = Some (Inr bs)"
      "length bs = 44 + length_frames nb * numberOfChannels nb * 2"
    by blast
  have "length_frames nb = 3999" using r(2) by simp
  moreover have "numberOfChannels nb = 1" using r(4) by (simp add: numberOfChannels_def)
  ultimately show ?thesis using wf i r by simp
qed

section \<open>extractClip: what is copied\<close>


lemma index_Num:
  assumes "Math_floor (js_times t sr) = Num (of_int s)"
  shows "s = \<lfloor>fl (t * sr)\<rfloor>"
proof (cases "js_times t sr")
  case (Num y)
  then have "y = fl (t * sr)" unfolding js_times_def by (rule to_number_Num)
  moreover have "real_of_int \<lfloor>y\<rfloor> = real_of_int s" using assms Num by simp
  then have "\<lfloor>y\<rfloor> = s" by (simp only: of_int_eq_iff)
  ultimately show ?thesis by simp
qed (use assms in simp_all)


lemma index_ge:
  assumes "n < 2 ^ 53" "real n \<le> t * sr" "Math_floor (js_times t sr) = Num (of_int s)"
  shows "int n \<le> s"
proof -
  have "real n \<le> fl (t * sr)" using assms(1,2) by (rule le_fl_of_nat)
  then show ?thesis using index_Num [OF assms(3)] by (simp add: le_floor_iff)
qed




text \<open>
  Claim C10 has every start time at or beyond the duration of the source give a buffer of
  zeros. The duration of a buffer is the quotient of its length and its sample rate,
  rounded, and can lie below the quotient: for 15 frames at 44100 Hz the start index
  computed from the duration is 14, and the first frame of the result is the last frame of
  the source.
\<close>

theorem extractClip_at_duration_copies:
  "buffer_duration \<lparr>sampleRate = 44100, length_frames = 15,
      channels = [[Fin 0, Fin 0, Fin 0, Fin 0, Fin 0, Fin 0, Fin 0, Fin 0, Fin 0, Fin 0,
                   Fin 0, Fin 0, Fin 0, Fin 0, Fin 1]]\<rparr> < 3 / 8192 \<and>
   Math_floor (js_times (buffer_duration \<lparr>sampleRate = 44100, length_frames = 15,
      channels = [[Fin 0, Fin 0, Fin 0, Fin 0, Fin 0, Fin 0, Fin 0, Fin 0, Fin 0, Fin 0,
                   Fin 0, Fin 0, Fin 0, Fin 0, Fin 1]]\<rparr>) 44100) = Num 14 \<and>
   Math_floor (js_times (3 / 8192) 44100) = Num 16 \<and>
   extract_buffer \<lparr>sampleRate = 44100, length_frames = 15,
      channels = [[Fin 0, Fin 0, Fin 0, Fin 0, Fin 0, Fin 0, Fin 0, Fin 0, Fin 0, Fin 0,
                   Fin 0, Fin 0, Fin 0, Fin 0, Fin 1]]\<rparr>
     (buffer_duration \<lparr>sampleRate = 44100, length_frames = 15,
      channels = [[Fin 0, Fin 0, Fin 0, Fin 0, Fin 0, Fin 0, Fin 0, Fin 0, Fin 0, Fin 0,
                   Fin 0, Fin 0, Fin 0, Fin 0, Fin 1]]\<rparr>) (3 / 8192) =
     Some (Inr \<lparr>sampleRate = 44100, length_frames = 2, channels = [[Fin 1, Fin 0]]\<rparr>)"
proof -
  let ?cd = "[Fin 0, Fin 0, Fin 0, Fin 0, Fin 0, Fin 0, Fin 0, Fin 0, Fin 0, Fin 0,
              Fin 0, Fin 0, Fin 0, Fin 0, Fin 1]"
  let ?B = "\<lparr>sampleRate = 44100, length_frames = 15, channels = [?cd]\<rparr>"
  have dur: "buffer_duration ?B = 6274402746159711 / 18446744073709551616"
    by (simp add: buffer_duration_def fl_eval)
  have i: "Math_floor (js_times (6274402746159711 / 18446744073709551616) 44100) = Num 14"
    "Math_floor (js_times (3 / 8192) 44100) = Num 16"
    by (simp_all add: js_times_def to_number_def fl_eval)
  have b: "channels ?B \<noteq> []" "0 < sampleRate ?B" by simp_all
  have s: "Math_floor (js_times (6274402746159711 / 18446744073709551616) (sampleRate ?B)) =
      Num (of_int 14)"
    and e: "Math_floor (js_times (3 / 8192) (sampleRate ?B)) = Num (of_int 16)"
    using i by simp_all
  have d: "(0::int) < 16 - 14" "(16::int) - 14 < 2 ^ 32" by simp_all
  have len: "length ?cd < 2 ^ 53" by simp
  have s0: "(0::int) \<le> 14" by simp
  have k: "segment ?cd (Num (of_int 14)) 2 0 (replicate 2 (Fin 0)) ! 0 = copied ?cd 14 0"
    "segment ?cd (Num (of_int 14)) 2 0 (replicate 2 (Fin 0)) ! 1 = copied ?cd 14 1"
    using segment_copied [OF s0 len, of _ 2] by simp_all
  have "segment ?cd (Num (of_int 14)) 2 0 (replicate 2 (Fin 0)) = [Fin 1, Fin 0]"
  proof (rule nth_equalityI)
    show "length (segment ?cd (Num (of_int 14)) 2 0 (replicate 2 (Fin 0))) = length [Fin 1, Fin 0]"
      by simp
    fix j assume "j < length (segment ?cd (Num (of_int 14)) 2 0 (replicate 2 (Fin 0)))"
    then have "j = 0 \<or> j = 1" by auto
    then show "segment ?cd (Num (of_int 14)) 2 0 (replicate 2 (Fin 0)) ! j = [Fin 1, Fin 0] ! j"
      using k by (auto simp: copied_def typed_get_def to_float32_def)
  qed
  then have "extract_buffer ?B (6274402746159711 / 18446744073709551616) (3 / 8192) =
      Some (Inr \<lparr>sampleRate = 44100, length_frames = 2, channels = [[Fin 1, Fin 0]]\<rparr>)"
    using extract_buffer_Some [OF b s e d] by (simp add: numberOfChannels_def)
  then show ?thesis using i by (simp add: dur)
qed

text \<open>
  Claim C10, amended. The start time has no upper bound. When its product with the sample
  rate is at least the number of frames of a well-formed source (the start time is at or
  beyond the quotient of the two, not rounded), the computed indices are finite and the
  frame count is positive and below \<open>2 ^ 32\<close> (so \<open>endTime > startTime\<close>), the call
  succeeds and the buffer it builds has the requested number of frames, every sample of
  every channel zero. (The number of frames of a buffer is far below \<open>2 ^ 53\<close>.)
\<close>

theorem extractClip_beyond_duration:
  assumes "wf_buffer b" and "length_frames b < 2 ^ 53"
    and "real (length_frames b) \<le> st * sampleRate b"
    and "Math_floor (js_times st (sampleRate b)) = Num (of_int s)"
    and "Math_floor (js_times en (sampleRate b)) = Num (of_int e)"
    and "0 < e - s" and "e - s < 2 ^ 32"
  shows "\<exists>nb bs. extract_buffer b st en = Some (Inr nb) \<and> extractClip b st en = Some (Inr bs) \<and>
           int (length_frames nb) = e - s \<and>
           channels nb = replicate (numberOfChannels b) (replicate (length_frames nb) (Fin 0))"
proof -
  have beyond: "int (length_frames b) \<le> s" using assms(2,3,4) by (rule index_ge)
  then have s: "0 \<le> s" by simp
  from extract_buffer_ok [OF assms(1,4,5,6,7)] s assms(2) obtain nb where
    nb: "extract_buffer b st en = Some (Inr nb)"
    and shape: "int (length_frames nb) = e - s" "numberOfChannels nb = numberOfChannels b"
      "wf_buffer nb"
    and val: "\<And>c j. c < numberOfChannels b \<Longrightarrow> int j < e - s \<Longrightarrow>
      channels nb ! c ! j = copied (channels b ! c) s j"
    by blast
  obtain bs where bs: "bufferToWav nb = Inr bs"
    using bufferToWav_total by blast
  have chan: "channels nb ! c = replicate (length_frames nb) (Fin 0)"
    if c: "c < numberOfChannels b" for c
  proof (rule nth_equalityI)
    have "c < numberOfChannels nb" using c shape(2) by simp
    then show len: "length (channels nb ! c) = length (replicate (length_frames nb) (Fin 0))"
      using wf_buffer_nth [OF shape(3)] by simp
    fix j assume "j < length (channels nb ! c)"
    then have j: "int j < e - s" using len shape(1) by simp
    have "channels nb ! c ! j = copied (channels b ! c) s j"
      using c j by (rule val)
    also have "\<dots> = Fin 0"
      using beyond wf_buffer_nth [OF assms(1) c] by (simp add: copied_def)
    finally show "channels nb ! c ! j = replicate (length_frames nb) (Fin 0) ! j"
      using j shape(1) by simp
  qed
  have "channels nb = replicate (numberOfChannels b) (replicate (length_frames nb) (Fin 0))"
  proof (rule nth_equalityI)
    show "length (channels nb) = length (replicate (numberOfChannels b) (replicate (length_frames nb) (Fin 0)))"
      using shape(2) by (simp add: numberOfChannels_def)
    fix c assume "c < length (channels nb)"
    then have "c < numberOfChannels b" using shape(2) by (simp add: numberOfChannels_def)
    then show "channels nb ! c = replicate (numberOfChannels b) (replicate (length_frames nb) (Fin 0)) ! c"
      using chan by simp
  qed
  then show ?thesis
    using nb bs shape(1) extractClip_Some [OF nb] by simp
qed

text \<open>
  The theorem at a two-frame buffer at 8000 Hz for the range from 1/2048 s to 1/1024 s,
  the indices 3 and 7.
\<close>

theorem extractClip_beyond_duration_witness:
  "wf_buffer \<lparr>sampleRate = 8000, length_frames = 2, channels = [[Fin 1, Fin (- 1)]]\<rparr> \<and>
   real (length_frames \<lparr>sampleRate = 8000, length_frames = 2, channels = [[Fin 1, Fin (- 1)]]\<rparr>)
     \<le> 1 / 2048 * 8000 \<and>
   Math_floor (js_times (1 / 2048) 8000) = Num 3 \<and>
   Math_floor (js_times (1 / 1024) 8000) = Num 7 \<and>
   (\<exists>nb bs. extract_buffer \<lparr>sampleRate = 8000, length_frames = 2, channels = [[Fin 1, Fin (- 1)]]\<rparr>
                (1 / 2048) (1 / 1024) = Some (Inr nb) \<and>
            extractClip \<lparr>sampleRate = 8000, length_frames = 2, channels = [[Fin 1, Fin (- 1)]]\<rparr>
                (1 / 2048) (1 / 1024) = Some (Inr bs) \<and>
            length_frames nb = 4 \<and> channels nb = [[Fin 0, Fin 0, Fin 0, Fin 0]])"
proof -
  let ?B = "\<lparr>sampleRate = 8000, length_frames = 2, channels = [[Fin 1, Fin (- 1)]]\<rparr>"
  have wf: "wf_buffer ?B" by (simp add: wf_buffer_def)
  have len: "length_frames ?B < 2 ^ 53" by simp
  have st: "real (length_frames ?B) \<le> 1 / 2048 * sampleRate ?B" by simp
  have i: "Math_floor (js_times (1 / 2048) 8000) = Num 3"
    "Math_floor (js_times (1 / 1024) 8000) = Num 7"
    by (simp_all add: js_times_def to_number_def fl_eval)
  have s: "Math_floor (js_times (1 / 2048) (sampleRate ?B)) = Num (of_int 3)"
    and e: "Math_floor (js_times (1 / 1024) (sampleRate ?B)) = Num (of_int 7)"
    using i by simp_all
  have d: "(0::int) < 7 - 3" "(7::int) - 3 < 2 ^ 32" by simp_all
  from extractClip_beyond_duration [OF wf len st s e d] obtain nb bs where
    r: "extract_buffer ?B (1 / 2048) (1 / 1024) = Some (Inr nb)"
      "extractClip ?B (1 / 2048) (1 / 1024) = Some (Inr bs)"
      "int (length_frames nb) = 7 - 3"
      "channels nb = replicate (numberOfChannels ?B) (replicate (length_frames nb) (Fin 0))"
    by blast
  have n: "length_frames nb = 4" using r(3) by simp
  have "channels nb = [[Fin 0, Fin 0, Fin 0, Fin 0]]"
    using r(4) by (simp add: n numberOfChannels_def numeral_eq_Suc)
  then show ?thesis using wf i r n by simp
qed

section \<open>The conversion of a sample\<close>

text \<open>
  The mapping as the specification words it: clamp to \<open>[-1, 1]\<close>, scale by 32768 below
  zero and by 32767 from zero on, round toward negative infinity.
\<close>

definition spec_sample_to_int16 :: "real \<Rightarrow> int" where
  "spec_sample_to_int16 s =
     (let c = max (- 1) (min 1 s) in \<lfloor>if c < 0 then c * 32768 else c * 32767\<rfloor>)"

lemma ToInt32_small:
  assumes "- 2147483648 \<le> js_trunc x" "js_trunc x < 2147483648"
  shows "ToInt32 x = js_trunc x"
proof (cases "0 \<le> js_trunc x")
  case True
  then have "js_trunc x mod 4294967296 = js_trunc x"
    using assms by (intro mod_pos_pos_trivial) simp_all
  then show ?thesis using assms by (simp add: ToInt32_def Let_def)
next
  case False
  have "js_trunc x mod 4294967296 = (js_trunc x + 4294967296) mod 4294967296" by simp
  also have "\<dots> = js_trunc x + 4294967296"
    using assms False by (intro mod_pos_pos_trivial) simp_all
  finally show ?thesis using assms False by (simp add: ToInt32_def Let_def)
qed

lemma scale_sample_clamped:
  assumes "- 1 \<le> c" "c \<le> 1"
  shows "scale_sample (Fin c) =
     (if c < - 1 / 2 then \<lceil>c * 32768\<rceil> else if c < 0 then \<lceil>c * 32767\<rceil> else \<lfloor>c * 32767\<rfloor>)"
proof -
  consider "c < - 1 / 2" | "- 1 / 2 \<le> c" "c < 0" | "0 \<le> c" by linarith
  then show ?thesis
  proof cases
    case 1
    have t: "js_trunc (c * 32768) = \<lceil>c * 32768\<rceil>" using 1 by (simp add: js_trunc_def)
    have "- 32768 \<le> c * 32768" "c * 32768 \<le> 0" using assms 1 by simp_all
    then have "- 32768 \<le> \<lceil>c * 32768\<rceil>" "\<lceil>c * 32768\<rceil> \<le> 0"
      by (simp_all add: le_ceiling_iff ceiling_le_iff)
    then have "ToInt32 (c * 32768) = \<lceil>c * 32768\<rceil>"
      using t by (intro ToInt32_small [THEN trans]) simp_all
    then show ?thesis using 1 by (simp add: scale_sample_def)
  next
    case 2
    have t: "js_trunc (c * 32767) = \<lceil>c * 32767\<rceil>" using 2 by (simp add: js_trunc_def)
    have "- 32767 \<le> c * 32767" "c * 32767 \<le> 0" using assms 2 by simp_all
    then have "- 32767 \<le> \<lceil>c * 32767\<rceil>" "\<lceil>c * 32767\<rceil> \<le> 0"
      by (simp_all add: le_ceiling_iff ceiling_le_iff)
    then have "ToInt32 (c * 32767) = \<lceil>c * 32767\<rceil>"
      using t by (intro ToInt32_small [THEN trans]) simp_all
    then show ?thesis using 2 by (simp add: scale_sample_def)
  next
    case 3
    have t: "js_trunc (c * 32767) = \<lfloor>c * 32767\<rfloor>" using 3 by (simp add: js_trunc_def)
    have "0 \<le> c * 32767" "c * 32767 \<le> 32767" using assms 3 by simp_all
    then have "0 \<le> \<lfloor>c * 32767\<rfloor>" "\<lfloor>c * 32767\<rfloor> \<le> 32767"
      by (simp_all add: le_floor_iff floor_le_iff)
    then have "ToInt32 (c * 32767) = \<lfloor>c * 32767\<rfloor>"
      using t by (intro ToInt32_small [THEN trans]) simp_all
    then show ?thesis using 3 by (simp add: scale_sample_def)
  qed
qed

text \<open>
  Claim C1 has the scaled value rounded toward negative infinity. The code applies
  \<^verbatim>\<open>| 0\<close>, which drops the fraction: the sample \<open>- 49153 / 65536\<close> (a
  \<^verbatim>\<open>Float32Array\<close> holds it exactly) scales to \<open>- 24576.5\<close> and is stored as
  \<open>- 24576\<close>, where the claim's mapping gives \<open>- 24577\<close>.
\<close>

theorem sample_conversion_truncates:
  "scale_sample (clamp_sample (Some (Fin (- 49153 / 65536)))) = - 24576 \<and>
   spec_sample_to_int16 (- 49153 / 65536) = - 24577"
proof -
  have "scale_sample (Fin (- 49153 / 65536)) = - 24576"
    using scale_sample_clamped [of "- 49153 / 65536"] by simp
  moreover have "clamp_sample (Some (Fin (- 49153 / 65536))) = Fin (- 49153 / 65536)"
    by (simp add: clamp_sample_def)
  moreover have "spec_sample_to_int16 (- 49153 / 65536) = - 24577"
    by (simp add: spec_sample_to_int16_def)
  ultimately show ?thesis by simp
qed

text \<open>
  Claim C1, amended. Every sample the encoder emits is clamped to \<open>[-1, 1]\<close> and the
  clamped value \<open>c\<close> is converted by dropping the fraction (rounding toward zero):
  of \<open>c * 32767\<close> when \<open>0 \<le> c\<close>, where this is the floor, and of \<open>c * 32768\<close> when
  \<open>c < - 1 / 2\<close>, where it is the ceiling. The result always fits 16 signed bits, so
  \<^verbatim>\<open>setInt16\<close> stores it unchanged. (For \<open>- 1 / 2 \<le> c < 0\<close> the test
  \<^verbatim>\<open>0.5 + sample < 0\<close> selects the factor 32767; the amended claim leaves that
  interval open, \<open>scale_sample_clamped\<close> records what the code computes there.)
\<close>

theorem sample_conversion:
  assumes "c = max (- 1) (min 1 s)"
  shows "clamp_sample (Some (Fin s)) = Fin c \<and>
         (0 \<le> c \<longrightarrow> scale_sample (Fin c) = \<lfloor>c * 32767\<rfloor>) \<and>
         (c < - 1 / 2 \<longrightarrow> scale_sample (Fin c) = \<lceil>c * 32768\<rceil>) \<and>
         - 32768 \<le> scale_sample (Fin c) \<and> scale_sample (Fin c) \<le> 32767"
proof -
  have c: "- 1 \<le> c" "c \<le> 1" using assms by simp_all
  note sc = scale_sample_clamped [OF c]
  have "- 32768 \<le> scale_sample (Fin c)"
    using c by (simp add: sc le_ceiling_iff le_floor_iff)
  moreover have "scale_sample (Fin c) \<le> 32767"
    using c by (simp add: sc ceiling_le_iff floor_le_iff)
  moreover have "clamp_sample (Some (Fin s)) = Fin c"
    unfolding assms by (simp add: clamp_sample_def)
  moreover have "scale_sample (Fin c) = \<lfloor>c * 32767\<rfloor>" if "0 \<le> c"
    using that by (simp add: sc)
  moreover have "scale_sample (Fin c) = \<lceil>c * 32768\<rceil>" if "c < - 1 / 2"
    using that by (simp add: sc)
  ultimately show ?thesis by blast
qed

text \<open>The theorem at the samples \<open>1 / 4\<close> and \<open>- 3\<close>, the second clamped to \<open>- 1\<close>.\<close>

theorem sample_conversion_witness:
  "(1 / 4 :: real) = max (- 1) (min 1 (1 / 4)) \<and>
   clamp_sample (Some (Fin (1 / 4))) = Fin (1 / 4) \<and>
   scale_sample (Fin (1 / 4)) = 8191 \<and>
   (- 1 :: real) = max (- 1) (min 1 (- 3)) \<and>
   clamp_sample (Some (Fin (- 3))) = Fin (- 1) \<and>
   scale_sample (Fin (- 1)) = - 32768"
proof -
  have a: "(1 / 4 :: real) = max (- 1) (min 1 (1 / 4))" by simp
  have b: "(- 1 :: real) = max (- 1) (min 1 (- 3))" by simp
  show ?thesis
    using a b sample_conversion [OF a] sample_conversion [OF b] by simp
qed

section \<open>The encoded file\<close>

text \<open>
  Claim C5 has the header followed by every frame of the buffer, in ascending order from
  frame 0. The loop of \<^verbatim>\<open>bufferToWav\<close> indexes the channel arrays with the
  cursor \<^verbatim>\<open>pos\<close>, which the header has left at 44 (\<open>bufferToWav_bytes\<close>): the
  first 44 frames are never read and the last 44 frames of the file stay zero. For a
  two-frame buffer holding \<open>1\<close> and \<open>- 1\<close>, and for the clip of its first two frames (the range from 0 to 5/16384 s),
  the file ends in four zero bytes, where the claim has the samples \<open>32767\<close> and
  \<open>- 32768\<close>, the bytes 255, 127, 0, 128.
\<close>

theorem bufferToWav_skips_leading_frames:
  "bufferToWav \<lparr>sampleRate = 8000, length_frames = 2, channels = [[Fin 1, Fin (- 1)]]\<rparr> =
     Inr (wav_header \<lparr>sampleRate = 8000, length_frames = 2, channels = [[Fin 1, Fin (- 1)]]\<rparr> 48 @
          [0, 0, 0, 0]) \<and>
   extractClip \<lparr>sampleRate = 8000, length_frames = 2, channels = [[Fin 1, Fin (- 1)]]\<rparr> 0 (5 / 16384) =
     Some (Inr (wav_header \<lparr>sampleRate = 8000, length_frames = 2, channels = [[Fin 1, Fin (- 1)]]\<rparr> 48 @
          [0, 0, 0, 0])) \<and>
   frames_bytes [[Fin 1, Fin (- 1)]] 0 2 = [255, 127, 0, 128]"
proof -
  let ?B = "\<lparr>sampleRate = 8000, length_frames = 2, channels = [[Fin 1, Fin (- 1)]]\<rparr>"
  have fb: "frames_bytes [[Fin 1, Fin (- 1)]] 0 2 = [255, 127, 0, 128]"
    by (simp add: frames_bytes_def frame_bytes_def sample_bytes_def typed_get_def
        clamp_sample_def scale_sample_clamped bytes_u16_def upt_rec)
  have z: "replicate (2 * min 44 (2::nat)) (0::nat) = [0, 0, 0, 0]"
    by (simp add: numeral_eq_Suc)
  have enc: "bufferToWav ?B = Inr (wav_header ?B 48 @ [0, 0, 0, 0])"
    using z by (simp add: bufferToWav_bytes numberOfChannels_def)
  have wf: "wf_buffer ?B" by (simp add: wf_buffer_def)
  have i: "Math_floor (js_times 0 (sampleRate ?B)) = Num (of_int 0)"
    "Math_floor (js_times (5 / 16384) (sampleRate ?B)) = Num (of_int 2)"
    by (simp_all add: js_times_def to_number_def fl_eval)
  have d: "(0::int) < 2 - 0" "(2::int) - 0 < 2 ^ 32" by simp_all
  from extract_buffer_ok [OF wf i d] obtain nb where
    nb: "extract_buffer ?B 0 (5 / 16384) = Some (Inr nb)"
    and sh: "sampleRate nb = sampleRate ?B" "int (length_frames nb) = 2 - 0"
      "numberOfChannels nb = numberOfChannels ?B"
    by blast
  have shape: "sampleRate nb = 8000" "length_frames nb = 2" "numberOfChannels nb = 1"
    using sh by (simp_all add: numberOfChannels_def)
  have "numberOfChannels ?B = 1" by (simp add: numberOfChannels_def)
  then have "wav_header nb 48 = wav_header ?B 48"
    by (simp add: wav_header_def shape)
  then have "bufferToWav nb = Inr (wav_header ?B 48 @ [0, 0, 0, 0])"
    using z by (simp add: bufferToWav_bytes shape)
  then have "extractClip ?B 0 (5 / 16384) = Some (Inr (wav_header ?B 48 @ [0, 0, 0, 0]))"
    using extractClip_Some [OF nb] by simp
  then show ?thesis using enc fb by simp
qed

text \<open>
  What does not depend on which frames are read: the encoder never fails and the file has
  44 bytes and two more per sample; its first 44 bytes are the canonical header for a file
  of that size; and a one-channel buffer of ten zero frames at 8000 Hz gives 64 bytes with
  the tag, the channel count 1 at byte 22, the sample rate 8000 at bytes 24 to 27 and zero
  sample bytes.
\<close>

lemma bufferToWav_length:
  "\<exists>bs. bufferToWav b = Inr bs \<and> length bs = 44 + length_frames b * numberOfChannels b * 2"
  using bufferToWav_total [of b] length_bufferToWav [of b] by blast

lemma bufferToWav_header:
  "\<exists>bs. bufferToWav b = Inr bs \<and> take 44 bs = wav_header b (length bs)"
proof -
  obtain bs where bs: "bufferToWav b = Inr bs" using bufferToWav_total by blast
  have "bs = wav_header b (length_frames b * numberOfChannels b * 2 + 44) @
          frames_bytes (channels b) 44 (length_frames b) @
          replicate (2 * numberOfChannels b * min 44 (length_frames b)) 0"
    using bs by (simp add: bufferToWav_bytes)
  then have "take 44 bs = wav_header b (length_frames b * numberOfChannels b * 2 + 44)"
    by simp
  then show ?thesis using bs length_bufferToWav [OF bs] by (simp add: add.commute)
qed

lemma bufferToWav_silence_8000:
  "\<exists>bs. bufferToWav \<lparr>sampleRate = 8000, length_frames = 10, channels = [replicate 10 (Fin 0)]\<rparr> = Inr bs \<and>
     length bs = 64 \<and> take 4 bs = map of_char ''RIFF'' \<and> bs ! 22 = 1 \<and>
     take 4 (drop 24 bs) = [64, 31, 0, 0] \<and> 64 + 31 * 256 = (8000::nat) \<and>
     drop 44 bs = replicate 20 0"
  by (simp add: bufferToWav_bytes numberOfChannels_def wav_header_def bytes_u32_def bytes_u16_def
      ToUint32_def js_trunc_def)

section \<open>Waveform: the columns of the envelope\<close>

text \<open>
  The two updates of the inner loop, \<^verbatim>\<open>if (datum < min) min = datum;\<close> and
  \<^verbatim>\<open>if (datum > max) max = datum;\<close>. A comparison with \<^verbatim>\<open>undefined\<close> (a read
  past the end of the array) or with NaN is false and leaves the variable as it is.
\<close>

definition update_min :: "sample option \<Rightarrow> real \<Rightarrow> real" where
  "update_min datum mn =
     (case datum of Some (Fin x) \<Rightarrow> (if x < mn then x else mn) | Some NaN \<Rightarrow> mn | None \<Rightarrow> mn)"

definition update_max :: "sample option \<Rightarrow> real \<Rightarrow> real" where
  "update_max datum mx =
     (case datum of Some (Fin x) \<Rightarrow> (if mx < x then x else mx) | Some NaN \<Rightarrow> mx | None \<Rightarrow> mx)"

text \<open>
  The inner loop of the draw effect, for pixel column \<open>i\<close>:
  \<^verbatim>\<open>for (let j = 0; j < step; j++) { const datum = data[i * step + j]; ... }\<close>.
\<close>

function scan_column :: "sample list \<Rightarrow> nat \<Rightarrow> nat \<Rightarrow> nat \<Rightarrow> real \<times> real \<Rightarrow> real \<times> real" where
  "scan_column data step i j (mn, mx) =
     (if j < step then
        (let datum = typed_get data (int (i * step + j))
         in scan_column data step i (j + 1) (update_min datum mn, update_max datum mx))
      else (mn, mx))"
  by pat_completeness auto
termination
  by (relation "measure (\<lambda>(d, step, i, j, m). step - j)") auto

declare scan_column.simps [simp del]

text \<open>
  The outer loop, \<^verbatim>\<open>for (let i = 0; i < width; i++)\<close>: each column starts from
  \<^verbatim>\<open>min = 1.0\<close> and \<^verbatim>\<open>max = -1.0\<close>, and the pair it ends with is what the
  column's line is drawn from.
\<close>

function columns :: "sample list \<Rightarrow> nat \<Rightarrow> nat \<Rightarrow> nat \<Rightarrow> (real \<times> real) list" where
  "columns data step width i =
     (if i < width then scan_column data step i 0 (1, - 1) # columns data step width (i + 1)
      else [])"
  by pat_completeness auto
termination
  by (relation "measure (\<lambda>(d, step, width, i). width - i)") auto

declare columns.simps [simp del]

text \<open>
  The pairs the draw effect computes for a buffer and a canvas width:
  \<^verbatim>\<open>data = audioBuffer.getChannelData(0)\<close>, which raises on a buffer without
  channels, and \<^verbatim>\<open>step = Math.ceil(data.length / width)\<close>, the quotient rounded.
  With \<open>width = 0\<close> the loop body never runs.
\<close>

definition downsample :: "AudioBuffer \<Rightarrow> nat \<Rightarrow> error + (real \<times> real) list" where
  "downsample audioBuffer width =
     (case channels audioBuffer of
        [] \<Rightarrow> Inl IndexSizeError
      | data # _ \<Rightarrow>
          if width = 0 then Inr []
          else Inr (columns data (nat \<lceil>fl (real (length data) / real width)\<rceil>) width 0))"

text \<open>
  For the comparison: group \<open>i\<close> of a channel cut into runs of \<open>step\<close> samples, and the
  numbers among its samples.
\<close>

fun finite_values :: "sample list \<Rightarrow> real list" where
  "finite_values [] = []"
| "finite_values (Fin x # xs) = x # finite_values xs"
| "finite_values (NaN # xs) = finite_values xs"

definition group_samples :: "sample list \<Rightarrow> nat \<Rightarrow> nat \<Rightarrow> sample list" where
  "group_samples data step i = take step (drop (i * step) data)"

definition group_values :: "sample list \<Rightarrow> nat \<Rightarrow> nat \<Rightarrow> real list" where
  "group_values data step i = finite_values (group_samples data step i)"

section \<open>Waveform: what a column holds\<close>

lemma fold_min_Min: "fold min vs (m::real) = Min (insert m (set vs))"
  using Min.set_eq_fold [of m vs] by simp

lemma fold_max_Max: "fold max vs (m::real) = Max (insert m (set vs))"
  using Max.set_eq_fold [of m vs] by simp

lemma typed_get_nat:
  "typed_get a (int k) = (if k < length a then Some (a ! k) else None)"
  by (simp add: typed_get_def)

lemma scan_column_fold:
  "scan_column data step i j (mn, mx) =
     (fold min (finite_values (take (step - j) (drop (i * step + j) data))) mn,
      fold max (finite_values (take (step - j) (drop (i * step + j) data))) mx)"
proof (induction data step i j "(mn, mx)" arbitrary: mn mx rule: scan_column.induct)
  case (1 data step i j mn mx)
  show ?case
  proof (cases "j < step")
    case False
    then show ?thesis by (subst scan_column.simps) simp
  next
    case True
    let ?k = "i * step + j"
    let ?datum = "typed_get data (int ?k)"
    have step: "scan_column data step i j (mn, mx) =
        scan_column data step i (j + 1) (update_min ?datum mn, update_max ?datum mx)"
      using True by (subst scan_column.simps) (simp add: Let_def)
    let ?rest = "finite_values (take (step - (j + 1)) (drop (i * step + (j + 1)) data))"
    have A: "scan_column data step i j (mn, mx) =
        (fold min ?rest (update_min ?datum mn), fold max ?rest (update_max ?datum mx))"
      using "1.hyps" [OF True refl] by (simp only: step)
    have sj: "step - j = Suc (step - (j + 1))" using True by simp
    show ?thesis
    proof (cases "?k < length data")
      case False
      then have "drop ?k data = []" "drop (i * step + (j + 1)) data = []"
        by simp_all
      moreover have "?datum = None"
        using False by (simp only: typed_get_nat if_False)
      ultimately show ?thesis
        unfolding A by (simp add: update_min_def update_max_def)
    next
      case inb: True
      then have d: "drop ?k data = data ! ?k # drop (i * step + (j + 1)) data"
        by (simp add: Cons_nth_drop_Suc)
      have dat: "?datum = Some (data ! ?k)"
        using inb by (simp only: typed_get_nat if_True)
      show ?thesis
        unfolding A dat d sj
        by (cases "data ! ?k") (auto simp: update_min_def update_max_def min_def max_def)
    qed
  qed
qed

lemma scan_column_group:
  "scan_column data step i 0 (1, - 1) =
     (Min (insert 1 (set (group_values data step i))),
      Max (insert (- 1) (set (group_values data step i))))"
  by (simp add: scan_column_fold fold_min_Min fold_max_Max group_values_def group_samples_def)

lemma columns_map:
  "columns data step width i = map (\<lambda>k. scan_column data step k 0 (1, - 1)) [i..<width]"
proof (induction data step width i rule: columns.induct)
  case (1 data step width i)
  show ?case
  proof (cases "i < width")
    case True
    then show ?thesis
      using "1.IH" by (subst columns.simps) (simp add: upt_conv_Cons)
  next
    case False
    then show ?thesis by (subst columns.simps) simp
  qed
qed

lemma concat_groups:
  "concat (map (group_samples data step) [0..<n]) = take (n * step) data"
proof (induction n)
  case 0
  then show ?case by simp
next
  case (Suc n)
  have "Suc n * step = n * step + step" by simp
  then have "take (Suc n * step) data = take (n * step) data @ take step (drop (n * step) data)"
    by (simp only: take_add)
  then show ?case using Suc by (simp add: group_samples_def)
qed

lemma step_covers:
  assumes "0 < width"
  shows "len \<le> width * nat \<lceil>real len / real width\<rceil>"
proof -
  have "real len / real width \<le> of_int \<lceil>real len / real width\<rceil>" by (rule le_of_int_ceiling)
  moreover have "0 < real width" using assms by simp
  ultimately have "real len \<le> of_int \<lceil>real len / real width\<rceil> * real width"
    by (simp only: pos_divide_le_eq)
  then have "real len \<le> real width * of_int \<lceil>real len / real width\<rceil>"
    by (simp add: mult.commute)
  moreover have "(- 1 :: real) < real len / real width"
    by (rule less_le_trans [of _ 0]) simp_all
  then have "0 \<le> \<lceil>real len / real width\<rceil>"
    by simp
  ultimately have "real len \<le> real (width * nat \<lceil>real len / real width\<rceil>)"
    by simp
  then show ?thesis by linarith
qed

lemma downsample_Inr:
  assumes "channels b = data # rest" "0 < width" "length data < 2 ^ 53"
  shows "downsample b width =
     Inr (map (\<lambda>i. (Min (insert 1 (set (group_values data (nat \<lceil>real (length data) / real width\<rceil>) i))),
                     Max (insert (- 1) (set (group_values data (nat \<lceil>real (length data) / real width\<rceil>) i)))))
            [0..<width])"
  using assms ceiling_fl_div [OF assms(3,2)]
  by (simp add: downsample_def columns_map scan_column_group)

text \<open>
  Claim C6 has every group yield its minimum and its maximum. The two variables start at
  \<open>1.0\<close> and \<open>- 1.0\<close> and are only ever lowered and raised, so a group whose samples
  all exceed 1 keeps the minimum \<open>1.0\<close>: the one-sample buffer holding \<open>2\<close> gives the
  pair \<open>(1, 2)\<close>, and the minimum of its only group is \<open>2\<close>.
\<close>

theorem downsample_clips_extrema:
  "downsample \<lparr>sampleRate = 8000, length_frames = 1, channels = [[Fin 2]]\<rparr> 1 = Inr [(1, 2)] \<and>
   group_values [Fin 2] (nat \<lceil>real (length [Fin 2]) / real (1::nat)\<rceil>) 0 = [2]"
proof -
  have "downsample \<lparr>sampleRate = 8000, length_frames = 1, channels = [[Fin 2]]\<rparr> 1 =
      Inr [scan_column [Fin 2] 1 0 0 (1, - 1)]"
    by (simp add: downsample_def columns_map)
  then show ?thesis
    by (simp add: scan_column_group group_values_def group_samples_def)
qed

text \<open>
  Claim C6, amended. For every buffer with at least one channel (of fewer than \<open>2 ^ 53\<close>
  samples, as every array is) and every width above zero the result has exactly
  \<open>width\<close> pairs, computed from the first channel alone. The
  channel is cut into \<open>width\<close> contiguous groups of \<open>\<lceil>frameCount / width\<rceil>\<close> samples
  (the last ones shorter or empty), which together are the whole channel. The pair of a
  group is the smaller of \<open>1.0\<close> and its minimum and the larger of \<open>- 1.0\<close> and its
  maximum, NaN samples left out: the sentinel \<open>(1.0, - 1.0)\<close> for an empty group, the
  minimum and maximum of the group when its samples lie in \<open>[-1, 1]\<close>, and \<open>(0, 0)\<close>
  for a group of zeros that is not empty.
\<close>

theorem downsample_columns:
  assumes "channels b = data # rest" and "0 < width" and "length data < 2 ^ 53"
    and "step = nat \<lceil>real (length data) / real width\<rceil>"
  shows "\<exists>ps. downsample b width = Inr ps \<and> length ps = width \<and>
           concat (map (group_samples data step) [0..<width]) = data \<and>
           (\<forall>i<width.
              ps ! i = (Min (insert 1 (set (group_values data step i))),
                        Max (insert (- 1) (set (group_values data step i)))) \<and>
              (group_values data step i = [] \<longrightarrow> ps ! i = (1, - 1)) \<and>
              (group_values data step i \<noteq> [] \<and> set (group_values data step i) \<subseteq> {- 1..1} \<longrightarrow>
                 ps ! i = (Min (set (group_values data step i)), Max (set (group_values data step i)))) \<and>
              (group_values data step i \<noteq> [] \<and> set (group_values data step i) \<subseteq> {0} \<longrightarrow>
                 ps ! i = (0, 0)))"
proof -
  let ?col = "\<lambda>i. (Min (insert 1 (set (group_values data step i))),
                    Max (insert (- 1) (set (group_values data step i))))"
  have ds: "downsample b width = Inr (map ?col [0..<width])"
    using downsample_Inr [OF assms(1,2,3)] by (simp add: assms(4))
  have cover: "concat (map (group_samples data step) [0..<width]) = data"
    using step_covers [OF assms(2), of "length data"]
    by (simp add: concat_groups assms(4))
  have inside: "?col i = (Min (set g), Max (set g))"
    if g: "g = group_values data step i" "g \<noteq> []" "set g \<subseteq> {- 1..1}" for i g
  proof -
    have ne: "set g \<noteq> {}" using g(2) by simp
    have "Min (set g) \<le> 1"
      using g(3) ne by (meson List.finite_set Min_in atLeastAtMost_iff subsetD)
    moreover have "- 1 \<le> Max (set g)"
      using g(3) ne by (meson List.finite_set Max_in atLeastAtMost_iff subsetD)
    moreover have "Min (insert 1 (set g)) = min 1 (Min (set g))"
      "Max (insert (- 1) (set g)) = max (- 1) (Max (set g))"
      using ne by simp_all
    ultimately show ?thesis
      by (simp add: g(1) [symmetric] min_absorb2 max_absorb2)
  qed
  have zero: "?col i = (0, 0)"
    if g: "g = group_values data step i" "g \<noteq> []" "set g \<subseteq> {0}" for i g
  proof -
    have "set g = {0}" using g(2,3) by (cases g) auto
    then show ?thesis by (simp add: g(1) [symmetric])
  qed
  have "\<forall>i<width.
      map ?col [0..<width] ! i = ?col i \<and>
      (group_values data step i = [] \<longrightarrow> map ?col [0..<width] ! i = (1, - 1)) \<and>
      (group_values data step i \<noteq> [] \<and> set (group_values data step i) \<subseteq> {- 1..1} \<longrightarrow>
         map ?col [0..<width] ! i = (Min (set (group_values data step i)), Max (set (group_values data step i)))) \<and>
      (group_values data step i \<noteq> [] \<and> set (group_values data step i) \<subseteq> {0} \<longrightarrow>
         map ?col [0..<width] ! i = (0, 0))"
    using inside zero by simp
  then show ?thesis
    using ds cover by (intro exI [of _ "map ?col [0..<width]"]) simp
qed

text \<open>
  The theorem at a two-channel buffer of three frames and two columns: the groups of the
  first channel are its first two samples and its last one.
\<close>

theorem downsample_columns_witness:
  "channels \<lparr>sampleRate = 8000, length_frames = 3,
             channels = [[Fin (1 / 2), Fin (- 1 / 4), Fin 0], [Fin 1, Fin 1, Fin 1]]\<rparr> =
     [Fin (1 / 2), Fin (- 1 / 4), Fin 0] # [[Fin 1, Fin 1, Fin 1]] \<and>
   (2::nat) = nat \<lceil>real (length [Fin (1 / 2), Fin (- 1 / 4), Fin 0]) / real (2::nat)\<rceil> \<and>
   group_values [Fin (1 / 2), Fin (- 1 / 4), Fin 0] 2 0 = [1 / 2, - 1 / 4] \<and>
   group_values [Fin (1 / 2), Fin (- 1 / 4), Fin 0] 2 1 = [0] \<and>
   (\<exists>ps. downsample \<lparr>sampleRate = 8000, length_frames = 3,
             channels = [[Fin (1 / 2), Fin (- 1 / 4), Fin 0], [Fin 1, Fin 1, Fin 1]]\<rparr> 2 = Inr ps \<and>
         length ps = 2 \<and> ps ! 0 = (- 1 / 4, 1 / 2) \<and> ps ! 1 = (0, 0))"
proof -
  let ?d = "[Fin (1 / 2), Fin (- 1 / 4), Fin 0]"
  let ?B = "\<lparr>sampleRate = 8000, length_frames = 3, channels = [?d, [Fin 1, Fin 1, Fin 1]]\<rparr>"
  have c: "channels ?B = ?d # [[Fin 1, Fin 1, Fin 1]]" by simp
  have w: "0 < (2::nat)" by simp
  have n: "length ?d < 2 ^ 53" by simp
  have s: "(2::nat) = nat \<lceil>real (length ?d) / real (2::nat)\<rceil>" by simp
  have g0: "group_values ?d 2 0 = [1 / 2, - 1 / 4]"
    by (simp add: group_values_def group_samples_def)
  have g1: "group_values ?d 2 1 = [0]"
    by (simp add: group_values_def group_samples_def)
  from downsample_columns [OF c w n s] obtain ps where
    ps: "downsample ?B 2 = Inr ps" "length ps = 2"
    and col: "\<And>i. i < 2 \<Longrightarrow>
      (group_values ?d 2 i \<noteq> [] \<and> set (group_values ?d 2 i) \<subseteq> {- 1..1} \<longrightarrow>
         ps ! i = (Min (set (group_values ?d 2 i)), Max (set (group_values ?d 2 i))))"
    by blast
  have "ps ! 0 = (- 1 / 4, 1 / 2)" using col [of 0, unfolded g0] by simp
  moreover have "ps ! 1 = (0, 0)" using col [of 1, unfolded g1] by simp
  ultimately show ?thesis using c s g0 g1 ps by blast
qed

section \<open>Waveform: pixels and times\<close>

text \<open>
  A JavaScript division whose divisor is zero gives an infinity or NaN, not a number:
  \<open>None\<close>. Otherwise the quotient is rounded.
\<close>

definition js_div :: "real \<Rightarrow> real \<Rightarrow> real option" where
  "js_div a b = (if b = 0 then None else Some (fl (a / b)))"

text \<open>
  The horizontal position of the playhead, \<^verbatim>\<open>(currentTime / duration) * width\<close>; the
  borders of the selection, \<^verbatim>\<open>startX\<close> and \<^verbatim>\<open>endX\<close>, are the same expression at
  \<^verbatim>\<open>selectionStart\<close> and \<^verbatim>\<open>selectionEnd\<close>.
\<close>

definition playheadX :: "real \<Rightarrow> nat \<Rightarrow> real \<Rightarrow> real option" where
  "playheadX duration width currentTime =
     map_option (\<lambda>r. fl (r * real width)) (js_div currentTime duration)"

text \<open>
  The time \<^verbatim>\<open>handleClick\<close> seeks to for a click \<open>x\<close> pixels from the left edge of the
  canvas: \<^verbatim>\<open>percent = x / rect.width\<close>, then \<^verbatim>\<open>onSeek(percent * duration)\<close>.
\<close>

definition handleClick :: "real \<Rightarrow> real \<Rightarrow> real \<Rightarrow> real option" where
  "handleClick duration rect_width x =
     map_option (\<lambda>percent. fl (percent * duration)) (js_div x rect_width)"

section \<open>App: the range of the selection\<close>

record TranscriptSegment =
  seg_id :: int
  seg_text :: string
  seg_start :: real
  seg_end :: real

text \<open>
  The effect that runs when \<^verbatim>\<open>selectedSegmentIds\<close> or \<^verbatim>\<open>transcript\<close> changes.
  The set of identifiers is the list of its members in insertion order, as
  \<^verbatim>\<open>Array.from\<close> returns them; the third argument is the range held so far, the
  result is the range held afterwards (\<open>None\<close> for \<^verbatim>\<open>null\<close>). When one of the two
  segments is not found the effect sets nothing.
\<close>

definition update_selectionRange ::
  "int list \<Rightarrow> TranscriptSegment list \<Rightarrow> (real \<times> real) option \<Rightarrow> (real \<times> real) option" where
  "update_selectionRange selectedSegmentIds transcript selectionRange =
     (if selectedSegmentIds = [] then None
      else
        let ids = sort selectedSegmentIds;
            firstSeg = find (\<lambda>s. seg_id s = hd ids) transcript;
            lastSeg = find (\<lambda>s. seg_id s = last ids) transcript
        in case (firstSeg, lastSeg) of
             (Some f, Some l) \<Rightarrow> Some (seg_start f, seg_end l)
           | _ \<Rightarrow> selectionRange)"

section \<open>Pixels and times are inverse to each other\<close>

text \<open>
  \<open>near n x y\<close>: the number \<open>y\<close> was computed from the non-negative exact value \<open>x\<close> with
  at most \<open>n\<close> roundings.
\<close>

definition near :: "nat \<Rightarrow> real \<Rightarrow> real \<Rightarrow> bool" where
  "near n x y \<longleftrightarrow> x * (1 - 1 / 2 ^ 53) ^ n \<le> y \<and> y \<le> x * (1 + 1 / 2 ^ 53) ^ n"

lemma near_refl: "near 0 x x"
  by (simp add: near_def)

lemma near_nonneg:
  assumes "near n x y" "0 \<le> x"
  shows "0 \<le> y"
proof -
  have "0 \<le> x * (1 - 1 / 2 ^ 53) ^ n" using assms(2) by (intro mult_nonneg_nonneg) simp_all
  then show ?thesis using assms(1) by (simp add: near_def)
qed

lemma near_fl:
  assumes "near n x y" "0 \<le> x"
  shows "near (Suc n) x (fl y)"
proof -
  have y: "0 \<le> y" using assms by (rule near_nonneg)
  have e: "\<bar>fl y - y\<bar> \<le> y / 2 ^ 53" using fl_error [of y] y by simp
  have "x * (1 - 1 / 2 ^ 53) ^ n * (1 - 1 / 2 ^ 53) \<le> y * (1 - 1 / 2 ^ 53)"
    using assms(1) by (intro mult_right_mono) (simp_all add: near_def)
  also have "\<dots> \<le> fl y" using e by (simp add: field_simps abs_if split: if_splits)
  finally have lo: "x * (1 - 1 / 2 ^ 53) ^ Suc n \<le> fl y" by (simp add: mult.assoc mult.commute)
  have "fl y \<le> y * (1 + 1 / 2 ^ 53)" using e by (simp add: field_simps abs_if split: if_splits)
  also have "\<dots> \<le> x * (1 + 1 / 2 ^ 53) ^ n * (1 + 1 / 2 ^ 53)"
    using assms(1) by (intro mult_right_mono) (simp_all add: near_def)
  finally have "fl y \<le> x * (1 + 1 / 2 ^ 53) ^ Suc n" by (simp add: mult.assoc mult.commute)
  with lo show ?thesis by (simp only: near_def)
qed

lemma near_mult:
  assumes "near n x y" "0 \<le> c"
  shows "near n (x * c) (y * c)"
proof -
  have "x * (1 - 1 / 2 ^ 53) ^ n * c \<le> y * c" "y * c \<le> x * (1 + 1 / 2 ^ 53) ^ n * c"
    using assms by (auto simp: near_def intro: mult_right_mono)
  then show ?thesis by (simp add: near_def mult.assoc mult.commute mult.left_commute)
qed

lemma near_div:
  assumes "near n x y" "0 < c"
  shows "near n (x / c) (y / c)"
  using near_mult [OF assms(1), of "1 / c"] assms(2) by simp

lemma near_4:
  assumes "near 4 x y" "0 \<le> x"
  shows "\<bar>y - x\<bar> \<le> x / 2 ^ 50"
proof -
  have a: "(1 + 1 / 2 ^ 53 :: real) ^ 4 \<le> 1 + 1 / 2 ^ 50" by (simp add: power4_eq_xxxx)
  have b: "(1 - 1 / 2 ^ 50 :: real) \<le> (1 - 1 / 2 ^ 53) ^ 4" by (simp add: power4_eq_xxxx)
  have "y \<le> x * (1 + 1 / 2 ^ 53) ^ 4" using assms(1) by (simp add: near_def)
  also have "\<dots> \<le> x * (1 + 1 / 2 ^ 50)" using a assms(2) by (rule mult_left_mono)
  finally have hi: "y - x \<le> x / 2 ^ 50" by (simp add: algebra_simps)
  have "x * (1 - 1 / 2 ^ 50) \<le> x * (1 - 1 / 2 ^ 53) ^ 4" using b assms(2) by (rule mult_left_mono)
  also have "\<dots> \<le> y" using assms(1) by (simp add: near_def)
  finally have "x - y \<le> x / 2 ^ 50" by (simp add: algebra_simps)
  with hi show ?thesis by (simp add: abs_if)
qed

lemma roundtrip_near:
  assumes "0 < a" "0 < b" "0 \<le> v"
  shows "near 2 (v / a * b) (fl (fl (v / a) * b))"
    and "near 4 v (fl (fl (fl (fl (v / a) * b) / b) * a))"
proof -
  have v: "0 \<le> v / a" using assms by simp
  have "near 1 (v / a) (fl (v / a))" using near_fl [OF near_refl v] by simp
  then have "near 1 (v / a * b) (fl (v / a) * b)" using assms(2) by (intro near_mult) simp_all
  moreover have vb: "0 \<le> v / a * b" using v assms(2) by (intro mult_nonneg_nonneg) simp_all
  ultimately have "near (Suc 1) (v / a * b) (fl (fl (v / a) * b))" by (rule near_fl)
  then show 2: "near 2 (v / a * b) (fl (fl (v / a) * b))" by (simp add: numeral_2_eq_2)
  from 2 have "near 2 (v / a * b / b) (fl (fl (v / a) * b) / b)" using assms(2) by (rule near_div)
  then have "near 2 (v / a) (fl (fl (v / a) * b) / b)" using assms(2) by simp
  then have "near (Suc 2) (v / a) (fl (fl (fl (v / a) * b) / b))" using v by (rule near_fl)
  then have "near (Suc 2) (v / a * a) (fl (fl (fl (v / a) * b) / b) * a)"
    using assms(1) by (intro near_mult) simp_all
  then have "near (Suc 2) v (fl (fl (fl (v / a) * b) / b) * a)" using assms(1) by simp
  then have "near (Suc (Suc 2)) v (fl (fl (fl (fl (v / a) * b) / b) * a))"
    using assms(3) by (rule near_fl)
  then show "near 4 v (fl (fl (fl (fl (v / a) * b) / b) * a))"
    by (simp add: eval_nat_numeral)
qed

text \<open>
  Claim C7. For a positive duration and a canvas of at least one and at most \<open>2 ^ 50\<close>
  pixels, the map from a time to a pixel is \<open>(time / duration) * width\<close> and the map from
  a pixel to a time is \<open>(pixel / width) * duration\<close>, each operation rounded as the code
  computes it. Each map takes \<open>[0, duration]\<close> and \<open>[0, width]\<close> to the other, and each
  undoes the other up to the rounding of the four operations: the time of the pixel of
  \<open>t\<close> differs from \<open>t\<close> by at most \<open>t / 2 ^ 50\<close>, which is within one pixel's worth
  of time, \<open>duration / width\<close>; the pixel of the time of \<open>x\<close> differs from \<open>x\<close> by
  at most \<open>x / 2 ^ 50\<close>, which is within one pixel. The duration is a binary64 number, and
  the click handler is taken at a canvas as wide on screen as its \<^verbatim>\<open>width\<close>
  attribute.
\<close>

theorem pixel_time_roundtrip:
  assumes "0 < duration" and "fl duration = duration"
    and "0 < width" and "width \<le> 2 ^ 50"
    and "0 \<le> t" and "t \<le> duration"
    and "0 \<le> x" and "x \<le> real width"
  shows "(\<exists>p t'. playheadX duration width t = Some p \<and>
            p = fl (fl (t / duration) * real width) \<and> 0 \<le> p \<and> p \<le> real width \<and>
            handleClick duration (real width) p = Some t' \<and>
            \<bar>t' - t\<bar> \<le> t / 2 ^ 50 \<and> \<bar>t' - t\<bar> \<le> duration / real width) \<and>
         (\<exists>s x'. handleClick duration (real width) x = Some s \<and>
            s = fl (fl (x / real width) * duration) \<and> 0 \<le> s \<and> s \<le> duration \<and>
            playheadX duration width s = Some x' \<and>
            \<bar>x' - x\<bar> \<le> x / 2 ^ 50 \<and> \<bar>x' - x\<bar> \<le> 1)"
proof -
  let ?w = "real width"
  let ?p = "fl (fl (t / duration) * ?w)"
  let ?t' = "fl (fl (?p / ?w) * duration)"
  let ?s = "fl (fl (x / ?w) * duration)"
  let ?x' = "fl (fl (?s / duration) * ?w)"
  have w: "0 < ?w" using assms(3) by simp
  have "width < 2 ^ 53" using assms(4) by (rule le_less_trans) simp
  then have flw: "fl ?w = ?w" by (rule fl_of_nat)
  have w50: "?w \<le> 2 ^ 50"
    using assms(4) by (metis of_nat_le_iff of_nat_numeral of_nat_power)
  have inv: "1 / 2 ^ 50 \<le> 1 / ?w" using w w50 by (intro divide_left_mono) simp_all
  have d: "duration \<noteq> 0" "?w \<noteq> 0" using assms(1) w by simp_all
  txt \<open>From a time to a pixel and back.\<close>
  have p0: "0 \<le> ?p" using assms(1,5) w by (intro fl_nonneg mult_nonneg_nonneg) simp_all
  have "fl (t / duration) * ?w \<le> 1 * ?w"
    using fl_ratio_le_1 [OF assms(1,6)] w by (intro mult_right_mono) simp_all
  then have "?p \<le> fl ?w" using fl_mono [of "fl (t / duration) * ?w" ?w] by simp
  then have pw: "?p \<le> ?w" by (simp only: flw)
  have t1: "\<bar>?t' - t\<bar> \<le> t / 2 ^ 50"
    using roundtrip_near(2) [OF assms(1) w assms(5)] assms(5) by (rule near_4)
  have "t / 2 ^ 50 \<le> duration / ?w"
  proof -
    have "t * (1 / 2 ^ 50) \<le> duration * (1 / ?w)"
      using assms(5,6) inv by (intro mult_mono) simp_all
    then show ?thesis by simp
  qed
  with t1 have t2: "\<bar>?t' - t\<bar> \<le> duration / ?w" by (rule order_trans)
  note t' = t1 t2
  have A: "playheadX duration width t = Some ?p" "handleClick duration ?w ?p = Some ?t'"
    using d by (simp_all add: playheadX_def handleClick_def js_div_def)
  txt \<open>From a pixel to a time and back.\<close>
  have s0: "0 \<le> ?s" using assms(1,7) w by (intro fl_nonneg mult_nonneg_nonneg) simp_all
  have "fl (x / ?w) * duration \<le> 1 * duration"
    using fl_ratio_le_1 [OF w assms(8)] assms(1) by (intro mult_right_mono) simp_all
  then have "?s \<le> fl duration" using fl_mono [of "fl (x / ?w) * duration" duration] by simp
  then have sd: "?s \<le> duration" by (simp only: assms(2))
  have x1: "\<bar>?x' - x\<bar> \<le> x / 2 ^ 50"
    using roundtrip_near(2) [OF w assms(1) assms(7)] assms(7) by (rule near_4)
  have "x / 2 ^ 50 \<le> 1"
  proof -
    have "x / 2 ^ 50 \<le> ?w / 2 ^ 50" using assms(8) by (intro divide_right_mono) simp_all
    also have "\<dots> \<le> 1" using w50 by simp
    finally show ?thesis .
  qed
  with x1 have x2: "\<bar>?x' - x\<bar> \<le> 1" by (rule order_trans)
  note x' = x1 x2
  have B: "handleClick duration ?w x = Some ?s" "playheadX duration width ?s = Some ?x'"
    using d by (simp_all add: playheadX_def handleClick_def js_div_def)
  show ?thesis
    using A p0 pw t' B s0 sd x' by blast
qed

text \<open>The theorem at a clip of 2 s on a canvas of 800 pixels: 0.5 s is pixel 200.\<close>

theorem pixel_time_roundtrip_witness:
  "(0::real) < 2 \<and> fl 2 = 2 \<and> (0::nat) < 800 \<and> (800::nat) \<le> 2 ^ 50 \<and>
   (0::real) \<le> 1 / 2 \<and> (1 / 2 :: real) \<le> 2 \<and>
   (0::real) \<le> 200 \<and> (200::real) \<le> real (800::nat) \<and>
   playheadX 2 800 (1 / 2) = Some 200 \<and> handleClick 2 (real (800::nat)) 200 = Some (1 / 2)"
proof -
  have e: "fl 2 = 2" "fl (1 / 4) = 1 / 4" "fl 200 = 200" "fl (1 / 2) = 1 / 2"
    by (simp_all add: fl_eval)
  have h: "(0::real) < 2" "(0::nat) < 800" "(800::nat) \<le> 2 ^ 50"
    "(0::real) \<le> 1 / 2" "(1 / 2 :: real) \<le> 2" "(0::real) \<le> 200" "(200::real) \<le> real (800::nat)"
    by simp_all
  from pixel_time_roundtrip [OF h(1) e(1) h(2,3,4,5,6,7)]
  show ?thesis
    by (simp add: e playheadX_def handleClick_def js_div_def)
qed

section \<open>The selection's range is that of its first and last segment\<close>

lemma hd_sort_Min:
  assumes "ids \<noteq> []"
  shows "hd (sort ids) = Min (set (ids::int list))"
proof -
  obtain a as where s: "sort ids = a # as"
    using assms by (cases "sort ids") (auto dest: arg_cong [where f = length])
  have "sorted (sort ids)" by simp
  then have "sorted (a # as)" by (simp only: s)
  then have "\<forall>y\<in>set (a # as). a \<le> y" by auto
  moreover have "set (sort ids) = set ids" by simp
  then have "set (a # as) = set ids" by (simp only: s)
  ultimately have "Min (set ids) = a"
    by (intro Min_eqI) auto
  then show ?thesis by (simp add: s)
qed

lemma last_sort_Max:
  assumes "ids \<noteq> []"
  shows "last (sort ids) = Max (set (ids::int list))"
proof -
  have ne: "sort ids \<noteq> []"
    using assms by (auto dest: arg_cong [where f = length])
  have "\<forall>y\<in>set (sort ids). y \<le> last (sort ids)"
  proof
    fix y assume "y \<in> set (sort ids)"
    then obtain k where k: "k < length (sort ids)" "y = sort ids ! k"
      by (metis in_set_conv_nth)
    then have "sort ids ! k \<le> sort ids ! (length (sort ids) - 1)"
      by (intro sorted_nth_mono) (use ne in simp_all)
    then show "y \<le> last (sort ids)" using k ne by (simp add: last_conv_nth)
  qed
  moreover have "last (sort ids) \<in> set (sort ids)" using ne by (rule last_in_set)
  ultimately have "Max (set (sort ids)) = last (sort ids)"
    by (intro Max_eqI) auto
  then show ?thesis by simp
qed

lemma find_by_id:
  assumes "distinct (map seg_id transcript)" "f \<in> set transcript"
  shows "find (\<lambda>s. seg_id s = seg_id f) transcript = Some f"
  using assms
proof (induction transcript)
  case Nil
  then show ?case by simp
next
  case (Cons a transcript)
  then show ?case by (cases "a = f") (auto simp: image_iff)
qed

text \<open>
  Claim C8. With no segment selected there is no range. With a selection that is not
  empty, the range is computed from the selection and the transcript alone (the range held
  before plays no part): it starts where the selected segment with the lowest identifier
  starts and ends where the one with the highest identifier ends, for a transcript whose
  identifiers are distinct and hold the selected ones. When start and end times grow with
  the identifiers, these are the least start time and the greatest end time of the
  selected segments.
\<close>

theorem selectionRange_recomputed:
  assumes "selectedSegmentIds \<noteq> []"
    and "distinct (map seg_id transcript)"
    and "firstSeg \<in> set transcript" and "seg_id firstSeg = Min (set selectedSegmentIds)"
    and "lastSeg \<in> set transcript" and "seg_id lastSeg = Max (set selectedSegmentIds)"
  shows "update_selectionRange selectedSegmentIds transcript old =
           Some (seg_start firstSeg, seg_end lastSeg) \<and>
         update_selectionRange [] transcript old = None \<and>
         ((\<forall>s\<in>set transcript. \<forall>s'\<in>set transcript.
              seg_id s \<le> seg_id s' \<longrightarrow> seg_start s \<le> seg_start s' \<and> seg_end s \<le> seg_end s') \<longrightarrow>
          seg_start firstSeg =
            Min (seg_start ` {s \<in> set transcript. seg_id s \<in> set selectedSegmentIds}) \<and>
          seg_end lastSeg =
            Max (seg_end ` {s \<in> set transcript. seg_id s \<in> set selectedSegmentIds}))"
proof -
  let ?sel = "{s \<in> set transcript. seg_id s \<in> set selectedSegmentIds}"
  have ne: "set selectedSegmentIds \<noteq> {}" using assms(1) by simp
  have f: "find (\<lambda>s. seg_id s = hd (sort selectedSegmentIds)) transcript = Some firstSeg"
    using find_by_id [OF assms(2,3)] by (simp add: hd_sort_Min [OF assms(1)] assms(4))
  have l: "find (\<lambda>s. seg_id s = last (sort selectedSegmentIds)) transcript = Some lastSeg"
    using find_by_id [OF assms(2,5)] by (simp add: last_sort_Max [OF assms(1)] assms(6))
  have range: "update_selectionRange selectedSegmentIds transcript old =
           Some (seg_start firstSeg, seg_end lastSeg)"
    using assms(1) by (simp add: update_selectionRange_def Let_def f l)
  have none: "update_selectionRange [] transcript old = None"
    by (simp add: update_selectionRange_def)
  have fsel: "firstSeg \<in> ?sel"
    using assms(3,4) ne Min_in [of "set selectedSegmentIds"] by simp
  have lsel: "lastSeg \<in> ?sel"
    using assms(5,6) ne Max_in [of "set selectedSegmentIds"] by simp
  have ordered: "seg_start firstSeg = Min (seg_start ` ?sel) \<and> seg_end lastSeg = Max (seg_end ` ?sel)"
    if mono: "\<forall>s\<in>set transcript. \<forall>s'\<in>set transcript.
              seg_id s \<le> seg_id s' \<longrightarrow> seg_start s \<le> seg_start s' \<and> seg_end s \<le> seg_end s'"
  proof
    have "seg_start firstSeg \<le> seg_start s" if "s \<in> ?sel" for s
    proof -
      have "seg_id firstSeg \<le> seg_id s" using that by (simp add: assms(4))
      then show ?thesis using mono assms(3) that by blast
    qed
    then show "seg_start firstSeg = Min (seg_start ` ?sel)"
      using fsel by (intro Min_eqI [symmetric]) auto
    have "seg_end s \<le> seg_end lastSeg" if "s \<in> ?sel" for s
    proof -
      have "seg_id s \<le> seg_id lastSeg" using that by (simp add: assms(6))
      then show ?thesis using mono assms(5) that by blast
    qed
    then show "seg_end lastSeg = Max (seg_end ` ?sel)"
      using lsel by (intro Max_eqI [symmetric]) auto
  qed
  show ?thesis using range none ordered by blast
qed

text \<open>
  The theorem at a transcript of three segments with the third and the second selected,
  in that order of selection, and a range held before.
\<close>

theorem selectionRange_recomputed_witness:
  "update_selectionRange [3, 2]
     [\<lparr>seg_id = 1, seg_text = ''a'', seg_start = 0, seg_end = 3 / 2\<rparr>,
      \<lparr>seg_id = 2, seg_text = ''b'', seg_start = 3 / 2, seg_end = 4\<rparr>,
      \<lparr>seg_id = 3, seg_text = ''c'', seg_start = 4, seg_end = 6\<rparr>]
     (Some (0, 3 / 2)) = Some (3 / 2, 6) \<and>
   Min (set [3, 2 :: int]) = 2 \<and> Max (set [3, 2 :: int]) = 3 \<and>
   Min (seg_start ` {s \<in> set
     [\<lparr>seg_id = 1, seg_text = ''a'', seg_start = 0, seg_end = 3 / 2\<rparr>,
      \<lparr>seg_id = 2, seg_text = ''b'', seg_start = 3 / 2, seg_end = 4\<rparr>,
      \<lparr>seg_id = 3, seg_text = ''c'', seg_start = 4, seg_end = 6\<rparr>]. seg_id s \<in> set [3, 2]}) = 3 / 2 \<and>
   Max (seg_end ` {s \<in> set
     [\<lparr>seg_id = 1, seg_text = ''a'', seg_start = 0, seg_end = 3 / 2\<rparr>,
      \<lparr>seg_id = 2, seg_text = ''b'', seg_start = 3 / 2, seg_end = 4\<rparr>,
      \<lparr>seg_id = 3, seg_text = ''c'', seg_start = 4, seg_end = 6\<rparr>]. seg_id s \<in> set [3, 2]}) = 6"
proof -
  let ?a = "\<lparr>seg_id = 1, seg_text = ''a'', seg_start = 0, seg_end = 3 / 2\<rparr>"
  let ?b = "\<lparr>seg_id = 2, seg_text = ''b'', seg_start = 3 / 2, seg_end = 4\<rparr>"
  let ?c = "\<lparr>seg_id = 3, seg_text = ''c'', seg_start = 4, seg_end = 6\<rparr>"
  have 1: "[3, 2 :: int] \<noteq> []" by simp
  have 2: "distinct (map seg_id [?a, ?b, ?c])" by simp
  have 3: "?b \<in> set [?a, ?b, ?c]" by simp
  have 4: "seg_id ?b = Min (set [3, 2])" by simp
  have 5: "?c \<in> set [?a, ?b, ?c]" by simp
  have 6: "seg_id ?c = Max (set [3, 2])" by simp
  have 7: "\<forall>s\<in>set [?a, ?b, ?c]. \<forall>s'\<in>set [?a, ?b, ?c].
              seg_id s \<le> seg_id s' \<longrightarrow> seg_start s \<le> seg_start s' \<and> seg_end s \<le> seg_end s'"
    by simp
  note r = selectionRange_recomputed [OF 1 2 3 4 5 6, of "Some (0, 3 / 2)"]
  from r 7 have "seg_start ?b = Min (seg_start ` {s \<in> set [?a, ?b, ?c]. seg_id s \<in> set [3, 2]})"
    "seg_end ?c = Max (seg_end ` {s \<in> set [?a, ?b, ?c]. seg_id s \<in> set [3, 2]})"
    by blast+
  then have "Min (seg_start ` {s \<in> set [?a, ?b, ?c]. seg_id s \<in> set [3, 2]}) = 3 / 2"
    "Max (seg_end ` {s \<in> set [?a, ?b, ?c]. seg_id s \<in> set [3, 2]}) = 6"
    by simp_all
  moreover have "update_selectionRange [3, 2] [?a, ?b, ?c] (Some (0, 3 / 2)) = Some (3 / 2, 6)"
    using r by simp
  ultimately show ?thesis by simp
qed

section \<open>formatTime and the name of the download\<close>








section \<open>The digits of a formatted time\<close>









end
